theory Spec2Isabelle
  imports Complex_Main
begin

section \<open>Texts\<close>

text \<open>
  A JavaScript string is a sequence of code units.  It is modelled as a \<^typ>\<open>string\<close>,
  one \<^typ>\<open>char\<close> per code unit, so the model covers the texts whose code units lie
  in the range 0 to 255; \<open>length\<close> is the \<open>.length\<close> of the source and
  \<open>take n\<close> is \<open>.slice(0, n)\<close> for a non-negative integer \<open>n\<close>.
\<close>

text \<open>
  The character classes the source relies on, by code unit.  \<open>is_space\<close> is the class
  \<open>\s\<close> of a regular expression, which is also what \<open>String.prototype.trim\<close>
  strips: tab, line feed, vertical tab, form feed, carriage return, space and the
  no-break space (the members of the class above code unit 255 lie outside the model).
  \<open>is_control\<close> is the class \<open>[\u0000-\u001F\u007F]\<close> of \<open>safeGenerate\<close>.
  \<open>is_json_ws\<close> is the white space of the JSON grammar: tab, line feed, carriage
  return and space.
\<close>

definition is_space :: "char \<Rightarrow> bool" where
  "is_space c \<longleftrightarrow> (of_char c :: nat) \<in> {9, 10, 11, 12, 13, 32, 160}"

definition is_control :: "char \<Rightarrow> bool" where
  "is_control c \<longleftrightarrow> (of_char c :: nat) \<le> 31 \<or> (of_char c :: nat) = 127"

definition is_json_ws :: "char \<Rightarrow> bool" where
  "is_json_ws c \<longleftrightarrow> (of_char c :: nat) \<in> {9, 10, 13, 32}"

definition is_digit :: "char \<Rightarrow> bool" where
  "is_digit c \<longleftrightarrow> 48 \<le> (of_char c :: nat) \<and> (of_char c :: nat) \<le> 57"

text \<open>\<open>s.trim()\<close>.\<close>

definition trim :: "string \<Rightarrow> string" where
  "trim s = rev (dropWhile is_space (rev (dropWhile is_space s)))"

text \<open>\<open>xs.join(sep)\<close>.\<close>

fun join :: "string \<Rightarrow> string list \<Rightarrow> string" where
  "join sep [] = []"
| "join sep [x] = x"
| "join sep (x # y # ys) = x @ sep @ join sep (y # ys)"

text \<open>
  \<open>compact\<close> of lodash on an array of optional strings: it drops every falsy entry,
  that is the missing ones and the empty string.
\<close>

definition compact_js :: "string option list \<Rightarrow> string list" where
  "compact_js xs =
     concat (map (\<lambda>x. case x of None \<Rightarrow> [] | Some s \<Rightarrow> if s = [] then [] else [s]) xs)"

text \<open>
  \<open>xs.slice(0, n)\<close> for an integer \<open>n\<close>: a negative \<open>n\<close> counts from the end of
  the array.
\<close>

definition slice0 :: "'a list \<Rightarrow> int \<Rightarrow> 'a list" where
  "slice0 xs n = (if 0 \<le> n then take (nat n) xs else take (length xs - nat (- n)) xs)"

text \<open>
  \<open>[...new Set(xs)]\<close>: a \<open>Set\<close> keeps each value once, in the order of first
  insertion.
\<close>

definition new_Set :: "'a list \<Rightarrow> 'a list" where
  "new_Set xs = fold (\<lambda>x seen. if x \<in> set seen then seen else seen @ [x]) xs []"

text \<open>
  A thrown exception or a rejected promise is the left summand of a result, with the
  message of the \<open>Error\<close>.
\<close>

datatype error = Error string

section \<open>TextTrimmer: \<open>trimPrompt\<close> (src/ai/providers.ts)\<close>

definition MinChunkSize :: int where
  "MinChunkSize = 140"

text \<open>\<open>splitter.splitText(prompt)[0] ?? ''\<close>: the first chunk, the empty text when there is none.\<close>

definition first_chunk :: "string list \<Rightarrow> string" where
  "first_chunk chunks = (case chunks of [] \<Rightarrow> [] | c # _ \<Rightarrow> c)"

text \<open>
  \<open>trimPrompt\<close> uses two things that are not part of the file: the tokenizer
  \<open>encoder.encode(prompt).length\<close> of the js-tiktoken package and the class
  \<open>RecursiveCharacterTextSplitter\<close> of \<open>./text-splitter\<close>.  Both are parameters of the
  model.  \<open>encode\<close> gives the number of tokens of a text, or the error that
  \<open>encoder.encode\<close> throws: with the options that \<open>trimPrompt\<close> leaves at their
  defaults, the tokenizer throws on a text that holds a special token.  \<open>trimPrompt\<close>
  catches nothing, so the error leaves it.  \<open>splitText chunkSize prompt\<close> is the list of
  chunks of \<open>new RecursiveCharacterTextSplitter({chunkSize, chunkOverlap: 0}).splitText(prompt)\<close>.
  The budget \<open>contextSize\<close> is an integer.  The function calls itself on a text that the
  splitter produced, so nothing in the code alone bounds the recursion: not returning is
  the value \<open>None\<close>.
\<close>

partial_function (option) trimPrompt ::
  "(string \<Rightarrow> error + nat) \<Rightarrow> (int \<Rightarrow> string \<Rightarrow> string list) \<Rightarrow> string \<Rightarrow> int \<Rightarrow>
     (error + string) option"
where
  "trimPrompt encode splitText prompt contextSize =
     (if prompt = [] then Some (Inr [])
      else
        case encode prompt of
          Inl e \<Rightarrow> Some (Inl e)
        | Inr tokens \<Rightarrow>
            let len = int tokens in
            if len \<le> contextSize then Some (Inr prompt)
            else
              let overflowTokens = len - contextSize;
                  chunkSize = int (length prompt) - overflowTokens * 3 in
              if chunkSize < MinChunkSize then Some (Inr (take (nat MinChunkSize) prompt))
              else
                let trimmedPrompt = first_chunk (splitText chunkSize prompt) in
                if length trimmedPrompt = length prompt
                then trimPrompt encode splitText (take (nat chunkSize) prompt) contextSize
                else trimPrompt encode splitText trimmedPrompt contextSize)"

text \<open>
  What the recursion needs from the splitter: its first chunk is never longer than the
  text it was cut from.
\<close>

definition splitter_shrinks :: "(int \<Rightarrow> string \<Rightarrow> string list) \<Rightarrow> bool" where
  "splitter_shrinks splitText \<longleftrightarrow>
     (\<forall>chunkSize prompt. length (first_chunk (splitText chunkSize prompt)) \<le> length prompt)"

text \<open>
  A tokenizer that accepts a text accepts the beginnings of the text.  The tokenizer of
  js-tiktoken does: it throws when a special token occurs in the text.
\<close>

definition accepts_prefixes :: "(string \<Rightarrow> error + nat) \<Rightarrow> bool" where
  "accepts_prefixes encode \<longleftrightarrow>
     (\<forall>s n k. encode s = Inr k \<longrightarrow> (\<exists>k'. encode (take n s) = Inr k'))"

text \<open>A splitter for concrete runs: one hard cut at \<open>chunkSize\<close> characters.\<close>

definition hard_cut :: "int \<Rightarrow> string \<Rightarrow> string list" where
  "hard_cut chunkSize prompt = [take (nat chunkSize) prompt]"

text \<open>
  Tokenizers for concrete runs.  \<open>strict_encoder\<close> throws, as \<open>encoder.encode\<close> does, on
  a text that holds the special token \<open><|endoftext|>\<close>, and counts one token for every
  code unit of any other text; \<open>counting_encoder\<close> never throws.
\<close>

fun holds :: "string \<Rightarrow> string \<Rightarrow> bool" where
  "holds token [] \<longleftrightarrow> token = []"
| "holds token (c # cs) \<longleftrightarrow> take (length token) (c # cs) = token \<or> holds token cs"

definition special_token :: string where
  "special_token = ''<|endoftext|>''"

definition strict_encoder :: "string \<Rightarrow> error + nat" where
  "strict_encoder s =
     (if holds special_token s
      then Inl (Error (''The text contains a special token that is not allowed: '' @ special_token))
      else Inr (length s))"

definition counting_encoder :: "string \<Rightarrow> error + nat" where
  "counting_encoder s = Inr (length s)"

text \<open>The same equation, in a form that evaluates the tokenizer before anything else.\<close>

lemma trimPrompt_code [code]:
  "trimPrompt encode splitText prompt contextSize =
     (if prompt = [] then Some (Inr [])
      else if isl (encode prompt) then Some (Inl (projl (encode prompt)))
      else
        let len = int (projr (encode prompt)) in
        if len \<le> contextSize then Some (Inr prompt)
        else
          let overflowTokens = len - contextSize;
              chunkSize = int (length prompt) - overflowTokens * 3 in
          if chunkSize < MinChunkSize then Some (Inr (take (nat MinChunkSize) prompt))
          else
            let trimmedPrompt = first_chunk (splitText chunkSize prompt) in
            if length trimmedPrompt = length prompt
            then trimPrompt encode splitText (take (nat chunkSize) prompt) contextSize
            else trimPrompt encode splitText trimmedPrompt contextSize)"
  by (subst trimPrompt.simps) (cases "encode prompt"; simp add: Let_def)

section \<open>\<open>JSON.parse\<close>\<close>

text \<open>
  \<open>JSON.parse\<close> is a built-in of the platform.  Its model follows the JSON grammar of
  ECMA-404 in two stages: a lexer from the text to tokens, and a parser from the tokens
  to a value.  A number keeps its lexeme, since no schema of the source reads a number.
  An object keeps its members in the order of the text, duplicates included.
\<close>

datatype json =
    JNull | JBool bool | JNumber string | JString string
  | JArray "json list" | JObject "(string \<times> json) list"

datatype token =
    LBrace | RBrace | LBracket | RBracket | Colon | Comma
  | TString string | TNumber string | TTrue | TFalse | TNull

subsection \<open>Strings\<close>

definition hex_value :: "char \<Rightarrow> nat option" where
  "hex_value c =
     (let n = (of_char c :: nat) in
      if 48 \<le> n \<and> n \<le> 57 then Some (n - 48)
      else if 97 \<le> n \<and> n \<le> 102 then Some (n - 87)
      else if 65 \<le> n \<and> n \<le> 70 then Some (n - 55)
      else None)"

text \<open>
  The code unit of \<open>\uXXXX\<close>.  An escape that denotes a code unit above 255 has no
  counterpart in \<^typ>\<open>char\<close>; the model rejects it.
\<close>

definition hex4 :: "char \<Rightarrow> char \<Rightarrow> char \<Rightarrow> char \<Rightarrow> char option" where
  "hex4 a b c d =
     (case (hex_value a, hex_value b, hex_value c, hex_value d) of
        (Some x, Some y, Some z, Some w) \<Rightarrow>
          (let n = ((x * 16 + y) * 16 + z) * 16 + w in
           if n < 256 then Some (char_of n) else None)
      | _ \<Rightarrow> None)"

definition unescape :: "char \<Rightarrow> char option" where
  \<open>unescape e =
     (if e = CHR ''"'' then Some (CHR ''"'')
      else if e = CHR 0x5C then Some (CHR 0x5C)
      else if e = CHR ''/'' then Some (CHR ''/'')
      else if e = CHR ''b'' then Some (CHR 0x08)
      else if e = CHR ''f'' then Some (CHR 0x0C)
      else if e = CHR ''n'' then Some (CHR 0x0A)
      else if e = CHR ''r'' then Some (CHR 0x0D)
      else if e = CHR ''t'' then Some (CHR 0x09)
      else None)\<close>

text \<open>
  The characters of a string literal after its opening quote: the decoded string and the
  text after the closing quote.  A raw code unit below 32 is not allowed in a literal.
\<close>

fun lex_string :: "string \<Rightarrow> (string \<times> string) option" where
  "lex_string [] = None"
| \<open>lex_string (c # cs) =
     (if c = CHR ''"'' then Some ([], cs)
      else if c = CHR 0x5C then
        (case cs of
           [] \<Rightarrow> None
         | e # cs' \<Rightarrow>
             if e = CHR ''u'' then
               (case cs' of
                  h1 # h2 # h3 # h4 # cs'' \<Rightarrow>
                    (case hex4 h1 h2 h3 h4 of
                       None \<Rightarrow> None
                     | Some u \<Rightarrow> map_option (apfst ((#) u)) (lex_string cs''))
                | _ \<Rightarrow> None)
             else
               (case unescape e of
                  None \<Rightarrow> None
                | Some u \<Rightarrow> map_option (apfst ((#) u)) (lex_string cs')))
      else if (of_char c :: nat) \<le> 31 then None
      else map_option (apfst ((#) c)) (lex_string cs))\<close>

lemma lex_string_length: "lex_string s = Some (str, rest) \<Longrightarrow> length rest < length s"
proof (induction s arbitrary: str rest rule: lex_string.induct)
  case 1
  then show ?case by simp
next
  case (2 c cs)
  then show ?case
    by (fastforce split: if_splits list.splits option.splits)
qed

subsection \<open>Numbers\<close>

text \<open>
  A number is an optional minus sign, an integer part (a single \<open>0\<close>, or a non-zero
  digit and more digits), an optional fraction and an optional exponent.
\<close>

definition lex_digits :: "string \<Rightarrow> (string \<times> string) option" where
  "lex_digits s =
     (if takeWhile is_digit s = [] then None
      else Some (takeWhile is_digit s, dropWhile is_digit s))"

definition lex_int :: "string \<Rightarrow> (string \<times> string) option" where
  "lex_int s =
     (case s of
        [] \<Rightarrow> None
      | d # s' \<Rightarrow>
          if d = CHR ''0'' then Some ([d], s')
          else if is_digit d then Some (d # takeWhile is_digit s', dropWhile is_digit s')
          else None)"

definition lex_frac :: "string \<Rightarrow> (string \<times> string) option" where
  "lex_frac s =
     (case s of
        d # s' \<Rightarrow>
          if d = CHR ''.'' then map_option (apfst ((#) d)) (lex_digits s')
          else Some ([], s)
      | [] \<Rightarrow> Some ([], s))"

definition lex_sign :: "string \<Rightarrow> string \<times> string" where
  "lex_sign s =
     (case s of
        c # s' \<Rightarrow> if c = CHR ''+'' \<or> c = CHR ''-'' then ([c], s') else ([], s)
      | [] \<Rightarrow> ([], s))"

definition lex_exp :: "string \<Rightarrow> (string \<times> string) option" where
  "lex_exp s =
     (case s of
        e # s' \<Rightarrow>
          if e = CHR ''e'' \<or> e = CHR ''E'' then
            (case lex_sign s' of (sg, s'') \<Rightarrow>
               map_option (apfst (\<lambda>ds. e # sg @ ds)) (lex_digits s''))
          else Some ([], s)
      | [] \<Rightarrow> Some ([], s))"

definition lex_minus :: "string \<Rightarrow> string \<times> string" where
  "lex_minus s =
     (case s of
        c # s' \<Rightarrow> if c = CHR ''-'' then ([c], s') else ([], s)
      | [] \<Rightarrow> ([], s))"

definition lex_number :: "string \<Rightarrow> (string \<times> string) option" where
  "lex_number s =
     (case lex_minus s of
        (neg, s1) \<Rightarrow>
          (case lex_int s1 of
             None \<Rightarrow> None
           | Some (ip, s2) \<Rightarrow>
               (case lex_frac s2 of
                  None \<Rightarrow> None
                | Some (fp, s3) \<Rightarrow>
                    (case lex_exp s3 of
                       None \<Rightarrow> None
                     | Some (ep, s4) \<Rightarrow> Some (neg @ ip @ fp @ ep, s4)))))"

lemma lex_digits_length: "lex_digits s = Some (ds, rest) \<Longrightarrow> length rest \<le> length s"
  by (auto simp: lex_digits_def length_dropWhile_le split: if_splits)

lemma lex_int_length: "lex_int s = Some (ds, rest) \<Longrightarrow> length rest < length s"
  by (auto simp: lex_int_def less_Suc_eq_le length_dropWhile_le split: if_splits list.splits)

lemma lex_frac_length: "lex_frac s = Some (ds, rest) \<Longrightarrow> length rest \<le> length s"
  by (auto simp: lex_frac_def le_SucI dest!: lex_digits_length split: if_splits list.splits)

lemma lex_sign_length: "lex_sign s = (sg, rest) \<Longrightarrow> length rest \<le> length s"
  by (auto simp: lex_sign_def split: if_splits list.splits)

lemma lex_exp_length: "lex_exp s = Some (ds, rest) \<Longrightarrow> length rest \<le> length s"
  by (auto simp: lex_exp_def le_SucI dest!: lex_digits_length lex_sign_length
      split: if_splits list.splits prod.splits)

lemma lex_minus_length: "lex_minus s = (neg, rest) \<Longrightarrow> length rest \<le> length s"
  by (auto simp: lex_minus_def split: if_splits list.splits)

lemma lex_number_length:
  assumes "lex_number s = Some (lx, rest)"
  shows "length rest < length s"
proof -
  obtain neg s1 where s1: "lex_minus s = (neg, s1)"
    by (cases "lex_minus s")
  from assms s1 obtain ip s2 fp s3 ep where
    "lex_int s1 = Some (ip, s2)" "lex_frac s2 = Some (fp, s3)" "lex_exp s3 = Some (ep, rest)"
    by (auto simp: lex_number_def split: option.splits)
  then have "length s2 < length s1" "length s3 \<le> length s2" "length rest \<le> length s3"
    by (auto dest: lex_int_length lex_frac_length lex_exp_length)
  with lex_minus_length [OF s1] show ?thesis by simp
qed

subsection \<open>Tokens\<close>

definition punctuator :: "char \<Rightarrow> token option" where
  "punctuator c =
     (if c = CHR ''{'' then Some LBrace
      else if c = CHR ''}'' then Some RBrace
      else if c = CHR ''['' then Some LBracket
      else if c = CHR '']'' then Some RBracket
      else if c = CHR '':'' then Some Colon
      else if c = CHR '','' then Some Comma
      else None)"

definition lex_literal :: "string \<Rightarrow> (token \<times> string) option" where
  "lex_literal s =
     (if take 4 s = ''true'' then Some (TTrue, drop 4 s)
      else if take 5 s = ''false'' then Some (TFalse, drop 5 s)
      else if take 4 s = ''null'' then Some (TNull, drop 4 s)
      else None)"

definition lex_token :: "string \<Rightarrow> (token \<times> string) option" where
  \<open>lex_token s =
     (case s of
        [] \<Rightarrow> None
      | c # cs \<Rightarrow>
          (case punctuator c of
             Some t \<Rightarrow> Some (t, cs)
           | None \<Rightarrow>
               if c = CHR ''"'' then map_option (apfst TString) (lex_string cs)
               else if c = CHR ''-'' \<or> is_digit c then map_option (apfst TNumber) (lex_number s)
               else lex_literal s))\<close>

lemma lex_token_length: "lex_token s = Some (t, rest) \<Longrightarrow> length rest < length s"
  by (auto simp: lex_token_def lex_literal_def less_Suc_eq
      dest: lex_string_length lex_number_length
      split: if_splits list.splits option.splits)

function tokenize :: "string \<Rightarrow> token list option" where
  "tokenize s =
     (case dropWhile is_json_ws s of
        [] \<Rightarrow> Some []
      | c # cs \<Rightarrow>
          (case lex_token (c # cs) of
             None \<Rightarrow> None
           | Some (t, rest) \<Rightarrow> map_option ((#) t) (tokenize rest)))"
  by pat_completeness auto
termination
proof (relation "measure length")
  show "wf (measure length)" by simp
next
  fix s c cs x t rest
  assume "dropWhile is_json_ws s = c # cs" "lex_token (c # cs) = Some x" "(t, rest) = x"
  then have "length rest < length (dropWhile is_json_ws s)"
    by (auto dest: lex_token_length)
  also have "\<dots> \<le> length s" by (rule length_dropWhile_le)
  finally show "(rest, s) \<in> measure length" by simp
qed

declare tokenize.simps [simp del]

subsection \<open>Values\<close>

text \<open>
  The parser descends into arrays and objects.  Its first argument bounds the depth of
  the descent; \<open>JSON_parse\<close> starts it with the number of tokens, which no descent
  exceeds, since every level consumes a token.  A text is accepted when the value ends
  where the tokens end.
\<close>

definition expect :: "token \<Rightarrow> token list \<Rightarrow> token list option" where
  "expect t ts = (case ts of [] \<Rightarrow> None | t' # rest \<Rightarrow> if t' = t then Some rest else None)"

fun parse_value :: "nat \<Rightarrow> token list \<Rightarrow> (json \<times> token list) option"
  and parse_elements :: "nat \<Rightarrow> token list \<Rightarrow> (json list \<times> token list) option"
  and parse_members :: "nat \<Rightarrow> token list \<Rightarrow> ((string \<times> json) list \<times> token list) option"
where
  "parse_value 0 ts = None"
| "parse_value (Suc n) ts =
     (case ts of
        [] \<Rightarrow> None
      | t # ts' \<Rightarrow>
          (case t of
             TNull \<Rightarrow> Some (JNull, ts')
           | TTrue \<Rightarrow> Some (JBool True, ts')
           | TFalse \<Rightarrow> Some (JBool False, ts')
           | TNumber x \<Rightarrow> Some (JNumber x, ts')
           | TString x \<Rightarrow> Some (JString x, ts')
           | LBracket \<Rightarrow>
               (case expect RBracket ts' of
                  Some rest \<Rightarrow> Some (JArray [], rest)
                | None \<Rightarrow>
                    (case parse_elements n ts' of
                       None \<Rightarrow> None
                     | Some (vs, rest) \<Rightarrow> map_option (Pair (JArray vs)) (expect RBracket rest)))
           | LBrace \<Rightarrow>
               (case expect RBrace ts' of
                  Some rest \<Rightarrow> Some (JObject [], rest)
                | None \<Rightarrow>
                    (case parse_members n ts' of
                       None \<Rightarrow> None
                     | Some (kvs, rest) \<Rightarrow> map_option (Pair (JObject kvs)) (expect RBrace rest)))
           | _ \<Rightarrow> None))"
| "parse_elements 0 ts = None"
| "parse_elements (Suc n) ts =
     (case parse_value n ts of
        None \<Rightarrow> None
      | Some (v, rest) \<Rightarrow>
          (case expect Comma rest of
             None \<Rightarrow> Some ([v], rest)
           | Some rest' \<Rightarrow> map_option (apfst ((#) v)) (parse_elements n rest')))"
| "parse_members 0 ts = None"
| "parse_members (Suc n) ts =
     (case ts of
        TString k # ts1 \<Rightarrow>
          (case expect Colon ts1 of
             None \<Rightarrow> None
           | Some ts2 \<Rightarrow>
               (case parse_value n ts2 of
                  None \<Rightarrow> None
                | Some (v, rest) \<Rightarrow>
                    (case expect Comma rest of
                       None \<Rightarrow> Some ([(k, v)], rest)
                     | Some rest' \<Rightarrow> map_option (apfst ((#) (k, v))) (parse_members n rest'))))
      | _ \<Rightarrow> None)"

definition JSON_parse :: "string \<Rightarrow> json option" where
  "JSON_parse text =
     (case tokenize text of
        None \<Rightarrow> None
      | Some ts \<Rightarrow>
          (case parse_value (length ts) ts of
             Some (v, []) \<Rightarrow> Some v
           | _ \<Rightarrow> None))"

section \<open>StructuredExtractor: \<open>safeGenerate\<close>\<close>

subsection \<open>The fenced block\<close>

text \<open>
  \<open>responseText.match(/```json\s*([\s\S]*?)\s*```/i)\<close>.  The match starts at the first
  place where three backquotes are followed by the letters \<open>json\<close> in either case.  The
  greedy \<open>\s*\<close> takes the white space that follows, the lazy group takes the shortest
  text after which only white space and three backquotes remain; so the match ends at the
  first three backquotes that follow, and the group is the text in between without the
  white space at its end.  When no three backquotes follow the first opening, none
  follow a later one, and there is no match.  \<open>match_json_fence\<close> is the first group
  of the match.
\<close>

fun opens_fence :: "string \<Rightarrow> bool" where
  "opens_fence (a # b # c # j # s # oh # n # _) \<longleftrightarrow>
     a = CHR ''`'' \<and> b = CHR ''`'' \<and> c = CHR ''`'' \<and>
     (j = CHR ''j'' \<or> j = CHR ''J'') \<and> (s = CHR ''s'' \<or> s = CHR ''S'') \<and>
     (oh = CHR ''o'' \<or> oh = CHR ''O'') \<and> (n = CHR ''n'' \<or> n = CHR ''N'')"
| "opens_fence _ \<longleftrightarrow> False"

fun closes_fence :: "string \<Rightarrow> bool" where
  "closes_fence (a # b # c # _) \<longleftrightarrow> a = CHR ''`'' \<and> b = CHR ''`'' \<and> c = CHR ''`''"
| "closes_fence _ \<longleftrightarrow> False"

fun after_fence_open :: "string \<Rightarrow> string option" where
  "after_fence_open [] = None"
| "after_fence_open (c # cs) =
     (if opens_fence (c # cs) then Some (drop 7 (c # cs)) else after_fence_open cs)"

fun before_fence_close :: "string \<Rightarrow> string option" where
  "before_fence_close [] = None"
| "before_fence_close (c # cs) =
     (if closes_fence (c # cs) then Some [] else map_option ((#) c) (before_fence_close cs))"

definition match_json_fence :: "string \<Rightarrow> string option" where
  "match_json_fence text =
     (case after_fence_open text of
        None \<Rightarrow> None
      | Some rest \<Rightarrow>
          (case before_fence_close (dropWhile is_space rest) of
             None \<Rightarrow> None
           | Some inner \<Rightarrow> Some (rev (dropWhile is_space (rev inner)))))"

text \<open>
  \<open>jsonMatch && jsonMatch[1] ? jsonMatch[1].trim() : responseText.trim()\<close>: an empty
  group is falsy, and the whole response is taken then.
\<close>

definition jsonString_of :: "string \<Rightarrow> string" where
  "jsonString_of responseText =
     (case match_json_fence responseText of
        Some group1 \<Rightarrow> if group1 \<noteq> [] then trim group1 else trim responseText
      | None \<Rightarrow> trim responseText)"

subsection \<open>Sanitization\<close>

text \<open>\<open>.replace(/[\u0000-\u001F\u007F]/g, '')\<close>.\<close>

definition remove_control_chars :: "string \<Rightarrow> string" where
  "remove_control_chars s = filter (\<lambda>c. \<not> is_control c) s"

text \<open>
  \<open>.replace(/,(\s*[}\]])/g, '$1')\<close>: a comma is dropped when white space and then a
  closing brace or bracket follow it.  The replacement goes on after the closing
  character; the white space and the closing character it steps over hold no comma, so
  going on right after the dropped comma gives the same text.
\<close>

definition before_closer :: "string \<Rightarrow> bool" where
  "before_closer s =
     (case dropWhile is_space s of
        [] \<Rightarrow> False
      | c # _ \<Rightarrow> c = CHR ''}'' \<or> c = CHR '']'')"

fun remove_trailing_commas :: "string \<Rightarrow> string" where
  "remove_trailing_commas [] = []"
| "remove_trailing_commas (c # cs) =
     (if c = CHR '','' \<and> before_closer cs then remove_trailing_commas cs
      else c # remove_trailing_commas cs)"

definition sanitizedJson_of :: "string \<Rightarrow> string" where
  "sanitizedJson_of jsonString = remove_trailing_commas (remove_control_chars jsonString)"

subsection \<open>The model call and the extraction\<close>

text \<open>
  \<open>generateText\<close> of the \<open>ai\<close> package is the language model.  It is a parameter of
  the model: a function of the system text and the prompt that gives the text of the
  response (absent when the provider returns none) or fails.  Two calls with the same
  texts may be answered differently, so the function also takes the place of the call in
  the run, a list of numbers that \<open>deepResearch\<close> extends at every call it makes.
\<close>

type_synonym call = "nat list"
type_synonym model = "call \<Rightarrow> string \<Rightarrow> string \<Rightarrow> error + string option"

text \<open>
  The schema of zod is a function from the parsed value to the validated one, absent
  when \<open>schema.parse\<close> throws.  The \<open>catch\<close> block turns a failure of
  \<open>JSON.parse\<close> or of the schema into one \<open>Error\<close> whose message holds
  \<open>jsonString\<close>; a failure of \<open>generateText\<close> happens before the \<open>try\<close> and is
  passed on as it is.
\<close>

definition safeGenerate ::
  "model \<Rightarrow> call \<Rightarrow> string \<Rightarrow> string \<Rightarrow> (json \<Rightarrow> 'a option) \<Rightarrow> error + 'a"
where
  "safeGenerate generateText site system prompt schema =
     (case generateText site system prompt of
        Inl e \<Rightarrow> Inl e
      | Inr response \<Rightarrow>
          (let responseText = (case response of None \<Rightarrow> [] | Some text \<Rightarrow> text);
               jsonString = jsonString_of responseText;
               sanitizedJson = sanitizedJson_of jsonString
           in case JSON_parse sanitizedJson of
                None \<Rightarrow> Inl (Error (''invalid json from model: '' @ jsonString))
              | Some parsed \<Rightarrow>
                  (case schema parsed of
                     None \<Rightarrow> Inl (Error (''invalid json from model: '' @ jsonString))
                   | Some v \<Rightarrow> Inr v)))"

subsection \<open>Schemas\<close>

text \<open>
  The three constructors of zod that the source uses.  A property of a parsed object is
  its last member of that name; \<open>z.object\<close> requires every listed property and drops
  the others.
\<close>

definition property :: "(string \<times> json) list \<Rightarrow> string \<Rightarrow> json option" where
  "property kvs k = map_of (rev kvs) k"

definition z_string :: "json \<Rightarrow> string option" where
  "z_string j = (case j of JString s \<Rightarrow> Some s | _ \<Rightarrow> None)"

definition z_array :: "(json \<Rightarrow> 'a option) \<Rightarrow> json \<Rightarrow> 'a list option" where
  "z_array item j = (case j of JArray vs \<Rightarrow> those (map item vs) | _ \<Rightarrow> None)"

definition z_field :: "(json \<Rightarrow> 'a option) \<Rightarrow> (string \<times> json) list \<Rightarrow> string \<Rightarrow> 'a option" where
  "z_field shape kvs k = (case property kvs k of None \<Rightarrow> None | Some j \<Rightarrow> shape j)"

section \<open>QueryPlanner, ResultDistiller and ResearchOrchestrator\<close>

subsection \<open>Data\<close>

record SerpQuery =
  query :: string
  researchGoal :: string

text \<open>
  The value of the distiller's schema; its field \<open>learnings\<close> is named
  \<open>distilled_learnings\<close> here, apart from the field of \<open>ResearchResult\<close>.
\<close>

record Distilled =
  distilled_learnings :: "string list"
  followUpQuestions :: "string list"

text \<open>An item of \<open>result.data\<close> of a search response.\<close>

record SearchItem =
  url :: "string option"
  description :: "string option"

record ResearchResult =
  learnings :: "string list"
  visitedUrls :: "string list"

text \<open>
  What the three functions call outside themselves: the language model, the search of
  Firecrawl (a failed search, or a response without \<open>data\<close>, is the left summand),
  the tokenizer and the splitter of \<open>trimPrompt\<close>, and the text of \<open>systemPrompt()\<close>.
  The pauses before the calls have no part in any result and are left out.
\<close>

record Collaborators =
  generateText :: model
  firecrawl_search :: "call \<Rightarrow> string \<Rightarrow> error + SearchItem list"
  encoder :: "string \<Rightarrow> error + nat"
  splitter :: "int \<Rightarrow> string \<Rightarrow> string list"
  systemPrompt :: string

subsection \<open>\<open>generateSerpQueries\<close>\<close>

definition serpQuery_schema :: "json \<Rightarrow> SerpQuery option" where
  "serpQuery_schema j =
     (case j of
        JObject kvs \<Rightarrow>
          (case (z_field z_string kvs ''query'', z_field z_string kvs ''researchGoal'') of
             (Some q, Some g) \<Rightarrow> Some \<lparr>query = q, researchGoal = g\<rparr>
           | _ \<Rightarrow> None)
      | _ \<Rightarrow> None)"

definition queries_schema :: "json \<Rightarrow> SerpQuery list option" where
  "queries_schema j =
     (case j of
        JObject kvs \<Rightarrow> z_field (z_array serpQuery_schema) kvs ''queries''
      | _ \<Rightarrow> None)"

definition serpQueries_prompt :: "string \<Rightarrow> string list option \<Rightarrow> string" where
  \<open>serpQueries_prompt query0 learnings0 =
     ''given the following prompt from the user, generate a list of serp queries to research the topic.\<newline>\<newline>'' @
     ''### output format:\<newline>'' @
     ''return your response in **valid json format**, following this **exact** structure:\<newline>'' @
     ''```json\<newline>{\<newline>  "queries": [\<newline>    {\<newline>      "query": "string",\<newline>'' @
     ''      "researchGoal": "string"\<newline>    }\<newline>  ]\<newline>}\<newline>```\<newline>\<newline>'' @
     ''### rules:\<newline>'' @
     ''- **only return valid json.** no explanations or extra text.\<newline>'' @
     ''- each query **must be unique** and not redundant.\<newline>'' @
     ''- each research goal should be **detailed and suggest further research directions**.\<newline>\<newline>'' @
     ''user prompt:\<newline><prompt>'' @ query0 @ ''</prompt>\<newline>\<newline>'' @
     (case learnings0 of
        Some ls \<Rightarrow> ''here are previous research learnings to refine queries: '' @ join ''\<newline>'' ls
      | None \<Rightarrow> []) @
     ''\<newline>''\<close>

definition generateSerpQueries ::
  "Collaborators \<Rightarrow> call \<Rightarrow> string \<Rightarrow> int \<Rightarrow> string list option \<Rightarrow> error + SerpQuery list"
where
  "generateSerpQueries C site query0 numQueries learnings0 =
     (case safeGenerate (generateText C) site (systemPrompt C)
             (serpQueries_prompt query0 learnings0) queries_schema of
        Inl e \<Rightarrow> Inl e
      | Inr queries \<Rightarrow> Inr (slice0 queries numQueries))"

subsection \<open>\<open>processSerpResult\<close>\<close>

definition distilled_schema :: "json \<Rightarrow> Distilled option" where
  "distilled_schema j =
     (case j of
        JObject kvs \<Rightarrow>
          (case (z_field (z_array z_string) kvs ''learnings'',
                 z_field (z_array z_string) kvs ''followUpQuestions'') of
             (Some ls, Some qs) \<Rightarrow> Some \<lparr>distilled_learnings = ls, followUpQuestions = qs\<rparr>
           | _ \<Rightarrow> None)
      | _ \<Rightarrow> None)"

definition serpResult_prompt :: "string \<Rightarrow> string list \<Rightarrow> string" where
  \<open>serpResult_prompt query0 contents =
     ''given the following contents from a serp search for the query <query>'' @ query0 @
     ''</query>, generate a structured json response with two fields: "learnings" and "followUpQuestions". \<newline>\<newline>'' @
     ''return your response in the following json format:\<newline>'' @
     ''```json\<newline>{\<newline>  "learnings": ["string1", "string2", "string3"],\<newline>'' @
     ''  "followUpQuestions": ["question1", "question2", "question3"]\<newline>}\<newline>```\<newline>\<newline>'' @
     ''make sure:\<newline>- the json is well-formed.\<newline>'' @
     ''- each learning is unique and contains specific details, numbers, or entities.\<newline>'' @
     ''- the follow-up questions help refine further research.\<newline>\<newline>'' @
     ''<contents>'' @
     join ''\<newline>'' (map (\<lambda>content. ''<content>\<newline>'' @ content @ ''\<newline></content>'') contents) @
     ''</contents>\<newline>''\<close>

text \<open>
  Every description is trimmed with \<open>trimPrompt(content, 25000)\<close>, one after the
  other.  A call of \<open>trimPrompt\<close> that never returns exhausts the call stack, which
  JavaScript raises as a \<open>RangeError\<close>; an error of the tokenizer leaves
  \<open>trimPrompt\<close> and, uncaught, \<open>processSerpResult\<close>.  The arguments \<open>numLearnings\<close> and \<open>numFollowUpQuestions\<close>
  are those of the source; its body does not read them.
\<close>

fun trimmed_contents :: "(error + string) option list \<Rightarrow> error + string list" where
  "trimmed_contents [] = Inr []"
| "trimmed_contents (x # xs) =
     (case x of
        None \<Rightarrow> Inl (Error ''Maximum call stack size exceeded'')
      | Some (Inl e) \<Rightarrow> Inl e
      | Some (Inr content) \<Rightarrow>
          (case trimmed_contents xs of
             Inl e \<Rightarrow> Inl e
           | Inr contents \<Rightarrow> Inr (content # contents)))"

definition processSerpResult ::
  "Collaborators \<Rightarrow> call \<Rightarrow> string \<Rightarrow> SearchItem list \<Rightarrow> int \<Rightarrow> int \<Rightarrow> error + Distilled"
where
  "processSerpResult C site query0 result numLearnings numFollowUpQuestions =
     (case trimmed_contents
             (map (\<lambda>content. trimPrompt (encoder C) (splitter C) content 25000)
                (compact_js (map description result))) of
        Inl e \<Rightarrow> Inl e
      | Inr contents \<Rightarrow>
          safeGenerate (generateText C) site (systemPrompt C)
            (serpResult_prompt query0 contents) distilled_schema)"

subsection \<open>\<open>deepResearch\<close>\<close>

definition nextQuery_of :: "string \<Rightarrow> string list \<Rightarrow> string" where
  "nextQuery_of goal followUps =
     trim (''\<newline>            previous research goal: '' @ goal @
           ''\<newline>            follow-up research directions: '' @
           concat (map (\<lambda>q. ''\<newline>'' @ q) followUps) @
           ''\<newline>          '')"

text \<open>
  \<open>Promise.all\<close>: the values of the promises in their order when all are fulfilled,
  the rejection of one of them otherwise (which one depends on the timing; the model
  takes the first in the list).
\<close>

definition Promise_all :: "(error + 'a) list \<Rightarrow> error + 'a list" where
  "Promise_all ps =
     (case filter isl ps of
        [] \<Rightarrow> Inr (map projr ps)
      | p # _ \<Rightarrow> Inl (projl p))"

definition no_result :: ResearchResult where
  "no_result = \<lparr>learnings = [], visitedUrls = []\<rparr>"

text \<open>
  The body of \<open>deepResearch\<close>.  The planner is called outside every \<open>try\<close>, so its
  failure rejects the invocation.  In a branch, the search and the distiller are awaited
  inside the \<open>try\<close> block: their failure is caught and the branch gives the empty
  result.  The recursive call is returned without \<open>await\<close>: the promise leaves the
  \<open>try\<close> block before it settles, so the branch settles as the recursive invocation
  does, a rejection included.  The planner of an invocation is call \<open>0\<close> below its
  place, branch \<open>i\<close> and all it calls are at \<open>Suc i\<close>.
\<close>

function deepResearch ::
  "Collaborators \<Rightarrow> call \<Rightarrow> string \<Rightarrow> int \<Rightarrow> int \<Rightarrow> string list \<Rightarrow> string list
     \<Rightarrow> error + ResearchResult"
where
  "deepResearch C site query0 breadth depth learnings0 visitedUrls0 =
     (case generateSerpQueries C (site @ [0]) query0 breadth (Some learnings0) of
        Inl e \<Rightarrow> Inl e
      | Inr serpQueries \<Rightarrow>
          (case Promise_all
                  (map (\<lambda>(i, serpQuery).
                      if query serpQuery = [] then Inr no_result
                      else
                        (case firecrawl_search C (site @ [Suc i]) (query serpQuery) of
                           Inl e \<Rightarrow> Inr no_result
                         | Inr result \<Rightarrow>
                             (let newUrls = compact_js (map url result);
                                  newBreadth = \<lceil>real_of_int breadth / 2\<rceil>;
                                  newDepth = depth - 1
                              in case processSerpResult C (site @ [Suc i]) (query serpQuery) result
                                        3 newBreadth of
                                   Inl e \<Rightarrow> Inr no_result
                                 | Inr newLearnings \<Rightarrow>
                                     (let allLearnings = learnings0 @ distilled_learnings newLearnings;
                                          allUrls = visitedUrls0 @ newUrls
                                      in if newDepth > 0
                                         then deepResearch C (site @ [Suc i])
                                                (nextQuery_of (researchGoal serpQuery)
                                                   (followUpQuestions newLearnings))
                                                newBreadth newDepth allLearnings allUrls
                                         else Inr \<lparr>learnings = allLearnings, visitedUrls = allUrls\<rparr>))))
                    (enumerate 0 serpQueries)) of
             Inl e \<Rightarrow> Inl e
           | Inr results \<Rightarrow>
               Inr \<lparr>learnings = new_Set (concat (map learnings results)),
                    visitedUrls = new_Set (concat (map visitedUrls results))\<rparr>))"
  by pat_completeness auto
termination
  by (relation "measure (\<lambda>(C, site, query0, breadth, depth, learnings0, visitedUrls0). nat depth)") auto

declare deepResearch.simps [simp del]

text \<open>One branch of an invocation: the function that \<open>deepResearch\<close> maps over its queries.\<close>

definition branch ::
  "Collaborators \<Rightarrow> call \<Rightarrow> int \<Rightarrow> int \<Rightarrow> string list \<Rightarrow> string list
     \<Rightarrow> nat \<times> SerpQuery \<Rightarrow> error + ResearchResult"
where
  "branch C site breadth depth learnings0 visitedUrls0 =
     (\<lambda>(i, serpQuery).
        if query serpQuery = [] then Inr no_result
        else
          (case firecrawl_search C (site @ [Suc i]) (query serpQuery) of
             Inl e \<Rightarrow> Inr no_result
           | Inr result \<Rightarrow>
               (let newUrls = compact_js (map url result);
                    newBreadth = \<lceil>real_of_int breadth / 2\<rceil>;
                    newDepth = depth - 1
                in case processSerpResult C (site @ [Suc i]) (query serpQuery) result
                          3 newBreadth of
                     Inl e \<Rightarrow> Inr no_result
                   | Inr newLearnings \<Rightarrow>
                       (let allLearnings = learnings0 @ distilled_learnings newLearnings;
                            allUrls = visitedUrls0 @ newUrls
                        in if newDepth > 0
                           then deepResearch C (site @ [Suc i])
                                  (nextQuery_of (researchGoal serpQuery)
                                     (followUpQuestions newLearnings))
                                  newBreadth newDepth allLearnings allUrls
                           else Inr \<lparr>learnings = allLearnings, visitedUrls = allUrls\<rparr>))))"

text \<open>
  The recursive calls of \<open>deepResearch\<close>.  \<open>deepResearch_rel\<close> is the relation that
  the definition of the function gives: it holds of the arguments of a recursive call and
  the arguments of the invocation whose body reaches that call.
\<close>

type_synonym invocation =
  "Collaborators \<times> call \<times> string \<times> int \<times> int \<times> string list \<times> string list"

definition recursive_call :: "invocation \<Rightarrow> invocation \<Rightarrow> bool" where
  "recursive_call parent child \<longleftrightarrow> deepResearch_rel child parent"

definition breadth_of :: "invocation \<Rightarrow> int" where
  "breadth_of = (\<lambda>(C, site, query0, breadth, depth, learnings0, visitedUrls0). breadth)"

definition depth_of :: "invocation \<Rightarrow> int" where
  "depth_of = (\<lambda>(C, site, query0, breadth, depth, learnings0, visitedUrls0). depth)"

definition learnings_of :: "invocation \<Rightarrow> string list" where
  "learnings_of = (\<lambda>(C, site, query0, breadth, depth, learnings0, visitedUrls0). learnings0)"

definition visitedUrls_of :: "invocation \<Rightarrow> string list" where
  "visitedUrls_of = (\<lambda>(C, site, query0, breadth, depth, learnings0, visitedUrls0). visitedUrls0)"

text \<open>
  A result carries an accumulator when it is empty or includes it.
\<close>

definition carries :: "string list \<Rightarrow> string list \<Rightarrow> ResearchResult \<Rightarrow> bool" where
  "carries ls us r \<longleftrightarrow>
     (learnings r = [] \<and> visitedUrls r = []) \<or>
     (set ls \<subseteq> set (learnings r) \<and> set us \<subseteq> set (visitedUrls r))"

section \<open>Collaborators for concrete runs\<close>

text \<open>
  Fixed answers, for running the functions on concrete inputs.  The planner is the call
  whose place ends in \<open>0\<close>.
\<close>

definition planner_reply :: string where
  \<open>planner_reply = ''```json\<newline>{"queries":[{"query":"q1","researchGoal":"g1"}]}\<newline>```''\<close>

definition twin_planner_reply :: string where
  \<open>twin_planner_reply =
     ''{"queries":[{"query":"q1","researchGoal":"g1"},{"query":"q2","researchGoal":"g2"}]}''\<close>

definition distiller_reply :: string where
  \<open>distiller_reply = ''{"learnings":["a","b"],"followUpQuestions":["f"]}''\<close>

definition long_distiller_reply :: string where
  \<open>long_distiller_reply = ''{"learnings":["l1","l2","l3"],"followUpQuestions":["f1","f2"]}''\<close>

definition demo_model :: model where
  "demo_model site system prompt =
     (if last site = 0 then Inr (Some planner_reply) else Inr (Some distiller_reply))"

definition demo_search :: "call \<Rightarrow> string \<Rightarrow> error + SearchItem list" where
  "demo_search site q = Inr [\<lparr>url = Some ''u1'', description = Some ''d1''\<rparr>]"

text \<open>One query at every level.\<close>

definition demo :: Collaborators where
  "demo = \<lparr>generateText = demo_model, firecrawl_search = demo_search, encoder = counting_encoder,
           splitter = hard_cut, systemPrompt = ''sys''\<rparr>"

definition demo_parent :: invocation where
  "demo_parent = (demo, [], ''topic'', 1, 2, [''k''], [''v''])"

definition demo_child :: invocation where
  "demo_child =
     (demo, [1], nextQuery_of ''g1'' [''f''], 1, 1, [''k'', ''a'', ''b''], [''v'', ''u1''])"

text \<open>Two queries, whose branches report the same learnings and the same URL.\<close>

definition twins :: Collaborators where
  "twins = \<lparr>generateText = (\<lambda>site system prompt.
               if last site = 0 then Inr (Some twin_planner_reply) else Inr (Some distiller_reply)),
            firecrawl_search = demo_search, encoder = counting_encoder, splitter = hard_cut,
            systemPrompt = ''sys''\<rparr>"

text \<open>Every search fails.\<close>

definition offline :: Collaborators where
  "offline = \<lparr>generateText = demo_model,
              firecrawl_search = (\<lambda>site q. Inl (Error ''search failed'')),
              encoder = counting_encoder, splitter = hard_cut, systemPrompt = ''sys''\<rparr>"

text \<open>
  Two queries at the top; the planner of the invocation that the first branch starts
  answers without JSON.
\<close>

definition flaky :: Collaborators where
  "flaky = \<lparr>generateText = (\<lambda>site system prompt.
               if site = [0] then Inr (Some twin_planner_reply)
               else if site = [1, 0] then Inr (Some ''I cannot help with that'')
               else if last site = 0 then Inr (Some planner_reply)
               else Inr (Some distiller_reply)),
            firecrawl_search = demo_search, encoder = counting_encoder, splitter = hard_cut,
            systemPrompt = ''sys''\<rparr>"

text \<open>A distiller that answers with three learnings and two questions.\<close>

definition chatty :: Collaborators where
  "chatty = \<lparr>generateText = (\<lambda>site system prompt. Inr (Some long_distiller_reply)),
             firecrawl_search = demo_search, encoder = counting_encoder, splitter = hard_cut,
             systemPrompt = ''sys''\<rparr>"





section \<open>JSON with trailing commas\<close>

text \<open>
  The texts that the specification calls JSON containing trailing commas before closers:
  the grammar of JSON, with one comma allowed after the last element of an array and
  after the last member of an object.  This parser is not part of the source; it states
  which texts the sanitization of \<open>safeGenerate\<close> is meant to repair.
\<close>

fun parse_value_tc :: "nat \<Rightarrow> token list \<Rightarrow> (json \<times> token list) option"
  and parse_elements_tc :: "nat \<Rightarrow> token list \<Rightarrow> (json list \<times> token list) option"
  and parse_members_tc :: "nat \<Rightarrow> token list \<Rightarrow> ((string \<times> json) list \<times> token list) option"
where
  "parse_value_tc 0 ts = None"
| "parse_value_tc (Suc n) ts =
     (case ts of
        [] \<Rightarrow> None
      | t # ts' \<Rightarrow>
          (case t of
             TNull \<Rightarrow> Some (JNull, ts')
           | TTrue \<Rightarrow> Some (JBool True, ts')
           | TFalse \<Rightarrow> Some (JBool False, ts')
           | TNumber x \<Rightarrow> Some (JNumber x, ts')
           | TString x \<Rightarrow> Some (JString x, ts')
           | LBracket \<Rightarrow>
               (case expect RBracket ts' of
                  Some rest \<Rightarrow> Some (JArray [], rest)
                | None \<Rightarrow>
                    (case parse_elements_tc n ts' of
                       None \<Rightarrow> None
                     | Some (vs, rest) \<Rightarrow> map_option (Pair (JArray vs)) (expect RBracket rest)))
           | LBrace \<Rightarrow>
               (case expect RBrace ts' of
                  Some rest \<Rightarrow> Some (JObject [], rest)
                | None \<Rightarrow>
                    (case parse_members_tc n ts' of
                       None \<Rightarrow> None
                     | Some (kvs, rest) \<Rightarrow> map_option (Pair (JObject kvs)) (expect RBrace rest)))
           | _ \<Rightarrow> None))"
| "parse_elements_tc 0 ts = None"
| "parse_elements_tc (Suc n) ts =
     (case parse_value_tc n ts of
        None \<Rightarrow> None
      | Some (v, rest) \<Rightarrow>
          (case expect Comma rest of
             None \<Rightarrow> Some ([v], rest)
           | Some rest' \<Rightarrow>
               (case expect RBracket rest' of
                  Some _ \<Rightarrow> Some ([v], rest')
                | None \<Rightarrow> map_option (apfst ((#) v)) (parse_elements_tc n rest'))))"
| "parse_members_tc 0 ts = None"
| "parse_members_tc (Suc n) ts =
     (case ts of
        TString k # ts1 \<Rightarrow>
          (case expect Colon ts1 of
             None \<Rightarrow> None
           | Some ts2 \<Rightarrow>
               (case parse_value_tc n ts2 of
                  None \<Rightarrow> None
                | Some (v, rest) \<Rightarrow>
                    (case expect Comma rest of
                       None \<Rightarrow> Some ([(k, v)], rest)
                     | Some rest' \<Rightarrow>
                         (case expect RBrace rest' of
                            Some _ \<Rightarrow> Some ([(k, v)], rest')
                          | None \<Rightarrow>
                              map_option (apfst ((#) (k, v))) (parse_members_tc n rest')))))
      | _ \<Rightarrow> None)"

definition JSON_parse_tc :: "string \<Rightarrow> json option" where
  "JSON_parse_tc text =
     (case tokenize text of
        None \<Rightarrow> None
      | Some ts \<Rightarrow>
          (case parse_value_tc (length ts) ts of
             Some (v, []) \<Rightarrow> Some v
           | _ \<Rightarrow> None))"

text \<open>
  For the proofs: the tokens without the commas that stand before a closing token, and
  a token without the text of its string.
\<close>

definition closer_next :: "token list \<Rightarrow> bool" where
  "closer_next ts = (case ts of [] \<Rightarrow> False | t # _ \<Rightarrow> t = RBrace \<or> t = RBracket)"

fun drop_tc :: "token list \<Rightarrow> token list" where
  "drop_tc [] = []"
| "drop_tc (t # ts) = (if t = Comma \<and> closer_next ts then drop_tc ts else t # drop_tc ts)"

fun kind :: "token \<Rightarrow> token" where
  "kind (TString s) = TString []"
| "kind t = t"

section \<open>Serialization\<close>

text \<open>
  \<open>JSON.stringify(v)\<close>, the serialization that the round trip of the specification
  starts from.  A quote and a backslash are escaped with a backslash, the code units
  below 32 by their short escape or by \<open>\u00XX\<close> with lower-case digits, and every other
  code unit stands for itself.  No white space is written.  A number is given by its
  literal.
\<close>

definition hex_digit :: "nat \<Rightarrow> char" where
  "hex_digit n = (if n < 10 then char_of (48 + n) else char_of (87 + n))"

definition escape_char :: "char \<Rightarrow> string" where
  \<open>escape_char c =
     (if c = CHR ''"'' then [CHR 0x5C, CHR ''"'']
      else if c = CHR 0x5C then [CHR 0x5C, CHR 0x5C]
      else if c = CHR 0x08 then [CHR 0x5C, CHR ''b'']
      else if c = CHR 0x0C then [CHR 0x5C, CHR ''f'']
      else if c = CHR 0x0A then [CHR 0x5C, CHR ''n'']
      else if c = CHR 0x0D then [CHR 0x5C, CHR ''r'']
      else if c = CHR 0x09 then [CHR 0x5C, CHR ''t'']
      else if (of_char c :: nat) < 32 then
        [CHR 0x5C, CHR ''u'', CHR ''0'', CHR ''0'',
         hex_digit ((of_char c :: nat) div 16), hex_digit ((of_char c :: nat) mod 16)]
      else [c])\<close>

definition quote :: "string \<Rightarrow> string" where
  \<open>quote s = CHR ''"'' # concat (map escape_char s) @ [CHR ''"'']\<close>

fun stringify :: "json \<Rightarrow> string"
  and stringify_elements :: "json list \<Rightarrow> string"
  and stringify_members :: "(string \<times> json) list \<Rightarrow> string"
where
  "stringify JNull = ''null''"
| "stringify (JBool b) = (if b then ''true'' else ''false'')"
| "stringify (JNumber x) = x"
| "stringify (JString s) = quote s"
| "stringify (JArray vs) = ''['' @ stringify_elements vs @ '']''"
| "stringify (JObject kvs) = ''{'' @ stringify_members kvs @ ''}''"
| "stringify_elements [] = []"
| "stringify_elements (v # vs) =
     stringify v @ (if vs = [] then [] else '','' @ stringify_elements vs)"
| "stringify_members [] = []"
| "stringify_members ((k, v) # kvs) =
     quote k @ '':'' @ stringify v @ (if kvs = [] then [] else '','' @ stringify_members kvs)"

text \<open>The tokens of the serialization.\<close>

fun tokens_of :: "json \<Rightarrow> token list"
  and tokens_of_elements :: "json list \<Rightarrow> token list"
  and tokens_of_members :: "(string \<times> json) list \<Rightarrow> token list"
where
  "tokens_of JNull = [TNull]"
| "tokens_of (JBool b) = [if b then TTrue else TFalse]"
| "tokens_of (JNumber x) = [TNumber x]"
| "tokens_of (JString s) = [TString s]"
| "tokens_of (JArray vs) = LBracket # tokens_of_elements vs @ [RBracket]"
| "tokens_of (JObject kvs) = LBrace # tokens_of_members kvs @ [RBrace]"
| "tokens_of_elements [] = []"
| "tokens_of_elements (v # vs) =
     tokens_of v @ (if vs = [] then [] else Comma # tokens_of_elements vs)"
| "tokens_of_members [] = []"
| "tokens_of_members ((k, v) # kvs) =
     TString k # Colon # tokens_of v @ (if kvs = [] then [] else Comma # tokens_of_members kvs)"

text \<open>
  The values that the round trip is stated for.  Every number is a number literal of
  JSON.  The literal of every string, keys included, is left as it is by both
  replacements of \<open>safeGenerate\<close> and holds no three backquotes in a row: the string
  has no code unit 127, and its literal has no comma that white space and a closing
  brace or bracket follow.
\<close>

definition plain_string :: "string \<Rightarrow> bool" where
  "plain_string s \<longleftrightarrow>
     remove_control_chars (quote s) = quote s \<and>
     remove_trailing_commas (quote s) = quote s \<and>
     before_fence_close (quote s) = None"

fun plain :: "json \<Rightarrow> bool"
  and plain_elements :: "json list \<Rightarrow> bool"
  and plain_members :: "(string \<times> json) list \<Rightarrow> bool"
where
  "plain JNull \<longleftrightarrow> True"
| "plain (JBool b) \<longleftrightarrow> True"
| "plain (JNumber x) \<longleftrightarrow> lex_number x = Some (x, [])"
| "plain (JString s) \<longleftrightarrow> plain_string s"
| "plain (JArray vs) \<longleftrightarrow> plain_elements vs"
| "plain (JObject kvs) \<longleftrightarrow> plain_members kvs"
| "plain_elements [] \<longleftrightarrow> True"
| "plain_elements (v # vs) \<longleftrightarrow> plain v \<and> plain_elements vs"
| "plain_members [] \<longleftrightarrow> True"
| "plain_members ((k, v) # kvs) \<longleftrightarrow> plain_string k \<and> plain v \<and> plain_members kvs"

text \<open>
  The response that holds the serialization in a fenced block tagged \<open>json\<close>, between
  two texts, and the model that gives a fixed response.
\<close>

definition fenced :: "string \<Rightarrow> string \<Rightarrow> string \<Rightarrow> string" where
  \<open>fenced before body after = before @ ''```json\<newline>'' @ body @ ''\<newline>```'' @ after\<close>

definition answering :: "string \<Rightarrow> model" where
  "answering text site system prompt = Inr (Some text)"

text \<open>The object that \<open>distilled_schema\<close> describes.\<close>

definition distilled_json :: "Distilled \<Rightarrow> json" where
  "distilled_json d =
     JObject [(''learnings'', JArray (map JString (distilled_learnings d))),
              (''followUpQuestions'', JArray (map JString (followUpQuestions d)))]"

text \<open>
  Values and surrounding texts to run the round trip on: a value with quotes, a
  backslash, a line feed, commas and brackets in its strings, between texts that hold
  backquotes and other fenced blocks; a text before the block that quotes a block of its
  own; and values whose strings hold three backquotes, a comma before a closing bracket,
  and the code unit 127.
\<close>

definition finding :: Distilled where
  \<open>finding =
     \<lparr>distilled_learnings =
        [''sizes: {a, b} and [1, 2]'',
         ''he said "no"'' @ [CHR 0x5C, CHR 0x0A, CHR 0x01] @ ''to `that`''],
      followUpQuestions = [''why, then?'']\<rparr>\<close>

definition chat_before :: string where
  \<open>chat_before = ''Some `code` first:\<newline>```\<newline>plain\<newline>```\<newline>Result: ``''\<close>

definition chat_after :: string where
  \<open>chat_after = ''\<newline>See also ```json {} ```''\<close>

definition quoted_block :: string where
  \<open>quoted_block =
     ''The format is ```json\<newline>{"learnings":[],"followUpQuestions":[]}\<newline>``` and the result is:\<newline>''\<close>

definition finding_short :: Distilled where
  "finding_short = \<lparr>distilled_learnings = [''l1''], followUpQuestions = [''f1'']\<rparr>"

definition finding_fence :: Distilled where
  "finding_fence = \<lparr>distilled_learnings = [''use ``` to fence''], followUpQuestions = []\<rparr>"

definition finding_comma :: Distilled where
  "finding_comma = \<lparr>distilled_learnings = [''sizes [1, 2,]''], followUpQuestions = []\<rparr>"

definition finding_del :: Distilled where
  "finding_del = \<lparr>distilled_learnings = [''a'' @ [CHR 0x7F] @ ''b''], followUpQuestions = []\<rparr>"

section \<open>ConcurrencyLimiter: the branches of a run in time\<close>

text \<open>
  \<open>const limit = pLimit(ConcurrencyLimit)\<close> stands in the body of \<open>deepResearch\<close>, so
  every invocation makes a limiter of its own, and \<open>limit(async () => ...)\<close> puts each of
  its branches into the queue of that limiter.  A limiter starts a queued function while
  fewer than \<open>ConcurrencyLimit\<close> of its functions are running, and counts a function as
  running until the promise it returned settles.  The order in which it takes the
  functions from its queue plays no part below and is left open.

  A branch is, in this order: in the queue; running and at its first timer; awaiting
  \<open>firecrawl.search\<close>; in \<open>processSerpResult\<close>, at the timer and then awaiting the
  model; and, when \<open>newDepth > 0\<close>, in the nested \<open>deepResearch\<close> whose promise it
  returns, first while that call awaits \<open>generateSerpQueries\<close> and then while the
  branches of the nested invocation run.  The nested promise is pending until all the
  nested branches are fulfilled or one of them is rejected; the nested branches that are
  still running then run on.  A branch ends fulfilled, or rejected when the nested
  call is (the rejection is not caught, since the promise is returned without
  \<open>await\<close>).
\<close>

definition ConcurrencyLimit :: nat where
  "ConcurrencyLimit = 2"

datatype outcome = Pending | Done | Failed

datatype branch =
    Queued | Pausing | Searching | Distilling
  | Planning int int
  | Nested outcome int int "branch list"
  | Fulfilled | Rejected

fun running :: "branch \<Rightarrow> bool" where
  "running Queued \<longleftrightarrow> False"
| "running Pausing \<longleftrightarrow> True"
| "running Searching \<longleftrightarrow> True"
| "running Distilling \<longleftrightarrow> True"
| "running (Planning b d) \<longleftrightarrow> True"
| "running (Nested out b d cs) \<longleftrightarrow> out = Pending"
| "running Fulfilled \<longleftrightarrow> False"
| "running Rejected \<longleftrightarrow> False"

fun fulfilled :: "branch \<Rightarrow> bool" where
  "fulfilled Fulfilled \<longleftrightarrow> True"
| "fulfilled (Nested out b d cs) \<longleftrightarrow> out = Done"
| "fulfilled _ \<longleftrightarrow> False"

fun rejected :: "branch \<Rightarrow> bool" where
  "rejected Rejected \<longleftrightarrow> True"
| "rejected (Nested out b d cs) \<longleftrightarrow> out = Failed"
| "rejected _ \<longleftrightarrow> False"

text \<open>\<open>activeCount\<close> of the limiter of an invocation with the branches \<open>bs\<close>.\<close>

definition active :: "branch list \<Rightarrow> nat" where
  "active bs = length (filter running bs)"

text \<open>
  What one running branch of an invocation with the given \<open>breadth\<close> and \<open>depth\<close> does
  next.  \<open>qs\<close> is the list of queries that the model returns to the nested call.
\<close>

inductive move :: "int \<Rightarrow> int \<Rightarrow> branch \<Rightarrow> branch \<Rightarrow> bool" for breadth depth :: int where
  invalid_query: "move breadth depth Pausing Fulfilled"
| search: "move breadth depth Pausing Searching"
| search_failed: "move breadth depth Searching Fulfilled"
| searched: "move breadth depth Searching Distilling"
| distill_failed: "move breadth depth Distilling Fulfilled"
| last_level: "\<not> 0 < depth - 1 \<Longrightarrow> move breadth depth Distilling Fulfilled"
| descend: "0 < depth - 1 \<Longrightarrow>
     move breadth depth Distilling (Planning \<lceil>real_of_int breadth / 2\<rceil> (depth - 1))"
| plan_failed: "move breadth depth (Planning b d) Rejected"
| planned: "move breadth depth (Planning b d)
     (Nested Pending b d (replicate (length (slice0 (qs :: SerpQuery list) b)) Queued))"
| all_fulfilled: "list_all fulfilled cs \<Longrightarrow>
     move breadth depth (Nested Pending b d cs) (Nested Done b d cs)"
| one_rejected: "list_ex rejected cs \<Longrightarrow>
     move breadth depth (Nested Pending b d cs) (Nested Failed b d cs)"

text \<open>
  One step of an invocation: its limiter starts a queued branch, one of its branches
  moves on, or a branch of a nested invocation takes a step.
\<close>

inductive step :: "int \<Rightarrow> int \<Rightarrow> branch list \<Rightarrow> branch list \<Rightarrow> bool" where
  start: "i < length bs \<Longrightarrow> bs ! i = Queued \<Longrightarrow> active bs < ConcurrencyLimit \<Longrightarrow>
     step breadth depth bs (bs[i := Pausing])"
| phase: "i < length bs \<Longrightarrow> move breadth depth (bs ! i) y \<Longrightarrow>
     step breadth depth bs (bs[i := y])"
| inner: "i < length bs \<Longrightarrow> bs ! i = Nested out b d cs \<Longrightarrow> step b d cs cs' \<Longrightarrow>
     step breadth depth bs (bs[i := Nested out b d cs'])"

text \<open>
  The branches that await the response of the search, in an invocation and all the
  invocations nested in it.
\<close>

fun searching :: "branch \<Rightarrow> nat" where
  "searching Searching = 1"
| "searching (Nested out b d cs) = sum_list (map searching cs)"
| "searching _ = 0"

text \<open>
  Every limiter in the tree of invocations runs at most \<open>ConcurrencyLimit\<close> branches.
\<close>

fun within_limit :: "branch \<Rightarrow> bool" where
  "within_limit (Nested out b d cs) \<longleftrightarrow>
     active cs \<le> ConcurrencyLimit \<and> list_all within_limit cs"
| "within_limit _ \<longleftrightarrow> True"

text \<open>
  The state of a run with breadth 4 and depth 2 in which the first two branches have
  reached their nested invocations, and both branches of each of these await the search.
\<close>

definition crowded :: "branch list" where
  "crowded =
     [Nested Pending 2 1 [Searching, Searching], Nested Pending 2 1 [Searching, Searching],
      Queued, Queued]"

subsection \<open>Properties of \<open>trimPrompt\<close>\<close>

lemma trimPrompt_fixed:
  assumes "r = [] \<or> (\<exists>n. encode r = Inr n \<and> (int n \<le> b \<or> int (length r) \<le> MinChunkSize))"
  shows "trimPrompt encode splitText r b = Some (Inr r)"
proof (cases "r = []")
  case True
  then show ?thesis
    by (subst trimPrompt.simps) simp
next
  case False
  with assms obtain n where n: "encode r = Inr n"
    and ok: "int n \<le> b \<or> int (length r) \<le> MinChunkSize"
    by blast
  show ?thesis
  proof (cases "int n \<le> b")
    case True
    with False n show ?thesis
      by (subst trimPrompt.simps) simp
  next
    case over: False
    with ok have short: "int (length r) \<le> MinChunkSize" by blast
    from over have "0 < int n - b" by simp
    with short have "int (length r) - (int n - b) * 3 < MinChunkSize"
      by (simp add: algebra_simps)
    moreover have "take (nat MinChunkSize) r = r"
      using short by simp
    ultimately show ?thesis
      using False n over by (subst trimPrompt.simps) (simp add: Let_def)
  qed
qed

lemma trimPrompt_returns:
  assumes shrinks: "splitter_shrinks splitText"
  shows "(\<exists>e s. trimPrompt encode splitText t b = Some (Inl e) \<and>
            encode s = Inl e \<and> length s \<le> length t) \<or>
         (\<exists>r. trimPrompt encode splitText t b = Some (Inr r) \<and>
            (r = [] \<or> (\<exists>n. encode r = Inr n \<and> int n \<le> b) \<or>
             (\<exists>s n. encode s = Inr n \<and> r = take (nat MinChunkSize) s)))"
proof (induction "length t" arbitrary: t rule: less_induct)
  case less
  show ?case
  proof (cases "t = []")
    case True
    then show ?thesis by (subst trimPrompt.simps) simp
  next
    case nonempty: False
    show ?thesis
    proof (cases "encode t")
      case (Inl e)
      with nonempty have "trimPrompt encode splitText t b = Some (Inl e)"
        by (subst trimPrompt.simps) simp
      with Inl show ?thesis by blast
    next
      case (Inr n)
      let ?chunkSize = "int (length t) - (int n - b) * 3"
      let ?trimmed = "first_chunk (splitText ?chunkSize t)"
      consider (fits) "int n \<le> b"
        | (floor) "\<not> int n \<le> b" "?chunkSize < MinChunkSize"
        | (cut) "\<not> int n \<le> b" "\<not> ?chunkSize < MinChunkSize" "length ?trimmed = length t"
        | (split) "\<not> int n \<le> b" "\<not> ?chunkSize < MinChunkSize" "length ?trimmed \<noteq> length t"
        by blast
      note split4 = this
      have transfer: ?thesis
        if shorter: "length u < length t"
          and same: "trimPrompt encode splitText t b = trimPrompt encode splitText u b" for u
      proof -
        from less [OF shorter]
        consider (raised) e s where "trimPrompt encode splitText u b = Some (Inl e)"
            "encode s = Inl e" "length s \<le> length u"
          | (returned) r where "trimPrompt encode splitText u b = Some (Inr r)"
            "r = [] \<or> (\<exists>n. encode r = Inr n \<and> int n \<le> b) \<or>
             (\<exists>s n. encode s = Inr n \<and> r = take (nat MinChunkSize) s)"
          by blast
        then show ?thesis
        proof cases
          case raised
          with shorter same
          have "trimPrompt encode splitText t b = Some (Inl e) \<and> encode s = Inl e \<and>
                  length s \<le> length t"
            by simp
          then show ?thesis by blast
        next
          case returned
          with same
          have "trimPrompt encode splitText t b = Some (Inr r) \<and>
                  (r = [] \<or> (\<exists>n. encode r = Inr n \<and> int n \<le> b) \<or>
                   (\<exists>s n. encode s = Inr n \<and> r = take (nat MinChunkSize) s))"
            by simp
          then show ?thesis by blast
        qed
      qed
      from split4 show ?thesis
      proof cases
        case fits
        with nonempty Inr have "trimPrompt encode splitText t b = Some (Inr t)"
          by (subst trimPrompt.simps) simp
        with Inr fits show ?thesis by blast
      next
        case floor
        with nonempty Inr
        have "trimPrompt encode splitText t b = Some (Inr (take (nat MinChunkSize) t))"
          by (subst trimPrompt.simps) (simp add: Let_def)
        with Inr show ?thesis by blast
      next
        case cut
        have "?chunkSize < int (length t)"
          using cut(1) by simp
        moreover have "0 \<le> ?chunkSize"
          using cut(2) by (simp add: MinChunkSize_def)
        ultimately have "nat ?chunkSize < length t"
          by (simp only: nat_less_iff)
        then have shorter: "length (take (nat ?chunkSize) t) < length t"
          by simp
        from nonempty Inr cut
        have "trimPrompt encode splitText t b =
                trimPrompt encode splitText (take (nat ?chunkSize) t) b"
          by (subst trimPrompt.simps) (simp add: Let_def)
        with shorter show ?thesis by (rule transfer)
      next
        case split
        have "length ?trimmed \<le> length t"
          using shrinks by (simp add: splitter_shrinks_def)
        with split(3) have shorter: "length ?trimmed < length t"
          by simp
        from nonempty Inr split
        have "trimPrompt encode splitText t b = trimPrompt encode splitText ?trimmed b"
          by (subst trimPrompt.simps) (simp add: Let_def)
        with shorter show ?thesis by (rule transfer)
      qed
    qed
  qed
qed

lemma hard_cut_shrinks: "splitter_shrinks hard_cut"
  by (simp add: splitter_shrinks_def hard_cut_def first_chunk_def)

lemma holds_take: "holds token (take n s) \<Longrightarrow> holds token s"
proof (induction s arbitrary: n)
  case Nil
  then show ?case by simp
next
  case (Cons c cs)
  show ?case
  proof (cases n)
    case 0
    with Cons.prems show ?thesis by simp
  next
    case (Suc m)
    with Cons.prems consider
      (here) "take (length token) (c # take m cs) = token" | (later) "holds token (take m cs)"
      by auto
    then show ?thesis
    proof cases
      case here
      have "length (take (length token) (c # take m cs)) \<le> Suc m"
        by simp
      with here have k: "length token \<le> Suc m"
        by simp
      have "take (length token) (take (Suc m) (c # cs)) = take (length token) (c # cs)"
        using k by (simp only: take_take min.absorb1)
      with here have "take (length token) (c # cs) = token"
        by simp
      then show ?thesis by simp
    next
      case later
      with Cons.IH show ?thesis by simp
    qed
  qed
qed

lemma strict_encoder_prefixes: "accepts_prefixes strict_encoder"
  unfolding accepts_prefixes_def
proof (intro allI impI)
  fix s n k
  assume "strict_encoder s = Inr k"
  then have "\<not> holds special_token s"
    by (simp add: strict_encoder_def split: if_splits)
  with holds_take have "\<not> holds special_token (take n s)"
    by blast
  then show "\<exists>k'. strict_encoder (take n s) = Inr k'"
    by (simp add: strict_encoder_def)
qed

lemma trimmed_160:
  "trimPrompt strict_encoder hard_cut (replicate 160 (CHR ''a'')) 155 =
     Some (Inr (replicate 145 (CHR ''a'')))"
  by code_simp

lemma trimmed_145:
  "trimPrompt strict_encoder hard_cut (replicate 145 (CHR ''a'')) 155 =
     Some (Inr (replicate 145 (CHR ''a'')))"
  by code_simp





text \<open>
  Claim C8 says that every text has a trimmed text that a second trim leaves as it is.  A
  text that holds a special token has none, whatever the budget: the tokenizer throws,
  and \<open>trimPrompt\<close> with it.
\<close>

theorem trimPrompt_twice_raises:
  "MinChunkSize \<le> 200 \<and>
   trimPrompt strict_encoder hard_cut ''<|endoftext|> and more'' 200 =
     Some (Inl (Error ''The text contains a special token that is not allowed: <|endoftext|>''))"
proof
  show "MinChunkSize \<le> 200" by (simp add: MinChunkSize_def)
  show "trimPrompt strict_encoder hard_cut ''<|endoftext|> and more'' 200 =
     Some (Inl (Error ''The text contains a special token that is not allowed: <|endoftext|>''))"
    by code_simp
qed

text \<open>
  Claim C8, as amended.  Let the splitter's first chunk be no longer than the text it was
  given, and let the tokenizer accept the beginnings of every text it accepts.  For a
  budget of at least the floor size, \<open>trimPrompt\<close> ends with an error of the tokenizer or
  returns a text that a second trim with the same budget returns unchanged; and a text
  whose estimated token count is within the budget is returned as it is.  (The proof does
  not use the bound on the budget.)
\<close>

theorem trimPrompt_idempotent:
  assumes "splitter_shrinks splitText" and "MinChunkSize \<le> b" and "accepts_prefixes encode"
  shows "((\<exists>e s. trimPrompt encode splitText t b = Some (Inl e) \<and> encode s = Inl e) \<or>
          (\<exists>r. trimPrompt encode splitText t b = Some (Inr r) \<and>
               trimPrompt encode splitText r b = Some (Inr r))) \<and>
         (\<forall>n. encode t = Inr n \<longrightarrow> int n \<le> b \<longrightarrow>
               trimPrompt encode splitText t b = Some (Inr t))"
proof
  from trimPrompt_returns [OF assms(1), of encode t b]
  consider (raised) e s where "trimPrompt encode splitText t b = Some (Inl e)" "encode s = Inl e"
    | (returned) r where "trimPrompt encode splitText t b = Some (Inr r)"
      "r = [] \<or> (\<exists>n. encode r = Inr n \<and> int n \<le> b) \<or>
       (\<exists>s n. encode s = Inr n \<and> r = take (nat MinChunkSize) s)"
    by blast
  then show "(\<exists>e s. trimPrompt encode splitText t b = Some (Inl e) \<and> encode s = Inl e) \<or>
          (\<exists>r. trimPrompt encode splitText t b = Some (Inr r) \<and>
               trimPrompt encode splitText r b = Some (Inr r))"
  proof cases
    case raised
    then show ?thesis by blast
  next
    case returned
    have "r = [] \<or> (\<exists>n. encode r = Inr n \<and> (int n \<le> b \<or> int (length r) \<le> MinChunkSize))"
    proof -
      from returned(2) consider "r = []" | n where "encode r = Inr n" "int n \<le> b"
        | s n where "encode s = Inr n" "r = take (nat MinChunkSize) s"
        by blast
      then show ?thesis
      proof cases
        case 3
        with assms(3) obtain k where "encode r = Inr k"
          unfolding accepts_prefixes_def by blast
        moreover from 3 have "int (length r) \<le> MinChunkSize"
          by (simp add: MinChunkSize_def)
        ultimately show ?thesis by blast
      qed blast+
    qed
    from trimPrompt_fixed [of r encode b splitText, OF this] returned(1) show ?thesis by blast
  qed
next
  show "\<forall>n. encode t = Inr n \<longrightarrow> int n \<le> b \<longrightarrow>
          trimPrompt encode splitText t b = Some (Inr t)"
    using trimPrompt_fixed [of t encode b splitText] by blast
qed

theorem trimPrompt_idempotent_witness:
  "splitter_shrinks hard_cut \<and> MinChunkSize \<le> 155 \<and> accepts_prefixes strict_encoder \<and>
   trimPrompt strict_encoder hard_cut (replicate 160 (CHR ''a'')) 155 =
     Some (Inr (replicate 145 (CHR ''a''))) \<and>
   trimPrompt strict_encoder hard_cut (replicate 145 (CHR ''a'')) 155 =
     Some (Inr (replicate 145 (CHR ''a''))) \<and>
   strict_encoder ''a short text'' = Inr 12 \<and>
   trimPrompt strict_encoder hard_cut ''a short text'' 155 = Some (Inr ''a short text'')"
proof -
  have b: "MinChunkSize \<le> 155" by (simp add: MinChunkSize_def)
  have s: "strict_encoder ''a short text'' = Inr 12" by code_simp
  from trimPrompt_idempotent [OF hard_cut_shrinks b strict_encoder_prefixes,
      of "''a short text''"] s
  have "trimPrompt strict_encoder hard_cut ''a short text'' 155 = Some (Inr ''a short text'')"
    by simp
  with trimPrompt_idempotent [OF hard_cut_shrinks b strict_encoder_prefixes,
      of "replicate 160 (CHR ''a'')"]
    hard_cut_shrinks b strict_encoder_prefixes s trimmed_160 trimmed_145
  show ?thesis by simp
qed

section \<open>Properties of the JSON model\<close>

subsection \<open>The bound on the descent\<close>

text \<open>
  A value that is parsed with some bound is parsed with every bound that is at least the
  number of tokens it takes, so the bound that \<open>JSON_parse\<close> starts with never cuts
  a parse short.
\<close>

lemma expect_Some: "expect t ts = Some rest \<longleftrightarrow> ts = t # rest"
  by (auto simp: expect_def split: list.splits)

lemma expect_Cons: "expect t (t' # ts) = (if t' = t then Some ts else None)"
  by (simp add: expect_def)

lemma expect_Nil: "expect t [] = None"
  by (simp add: expect_def)

definition fuel_ok_value :: "nat \<Rightarrow> bool" where
  "fuel_ok_value n \<longleftrightarrow>
     (\<forall>ts v r. parse_value n ts = Some (v, r) \<longrightarrow>
        length r < length ts \<and>
        (\<forall>m. length ts - length r \<le> m \<longrightarrow> parse_value m ts = Some (v, r)))"

definition fuel_ok_elements :: "nat \<Rightarrow> bool" where
  "fuel_ok_elements n \<longleftrightarrow>
     (\<forall>ts vs r. parse_elements n ts = Some (vs, r) \<longrightarrow>
        length r < length ts \<and>
        (\<forall>m. length ts - length r < m \<longrightarrow> parse_elements m ts = Some (vs, r)))"

definition fuel_ok_members :: "nat \<Rightarrow> bool" where
  "fuel_ok_members n \<longleftrightarrow>
     (\<forall>ts kvs r. parse_members n ts = Some (kvs, r) \<longrightarrow>
        length r < length ts \<and>
        (\<forall>m. length ts - length r \<le> m \<longrightarrow> parse_members m ts = Some (kvs, r)))"

lemma fuel_elementsD:
  assumes "fuel_ok_elements n" "parse_elements n ts = Some (vs, r)"
  shows "length r < length ts"
    and "length ts - length r < m \<Longrightarrow> parse_elements m ts = Some (vs, r)"
  using assms unfolding fuel_ok_elements_def by blast+

lemma fuel_membersD:
  assumes "fuel_ok_members n" "parse_members n ts = Some (kvs, r)"
  shows "length r < length ts"
    and "length ts - length r \<le> m \<Longrightarrow> parse_members m ts = Some (kvs, r)"
  using assms unfolding fuel_ok_members_def by blast+

lemma fuel_valueD:
  assumes "fuel_ok_value n" "parse_value n ts = Some (v, r)"
  shows "length r < length ts"
    and "length ts - length r \<le> m \<Longrightarrow> parse_value m ts = Some (v, r)"
  using assms unfolding fuel_ok_value_def by blast+

lemma fuel_value_step:
  assumes E: "fuel_ok_elements n" and M: "fuel_ok_members n"
  shows "fuel_ok_value (Suc n)"
  unfolding fuel_ok_value_def
proof (intro allI impI)
  fix ts v r
  assume a: "parse_value (Suc n) ts = Some (v, r)"
  then obtain t ts' where ts: "ts = t # ts'"
    by (cases ts) auto
  have scalar: "length r < length ts \<and>
      (\<forall>m. length ts - length r \<le> m \<longrightarrow> parse_value m ts = Some (v, r))"
    if "length r < length ts" "\<And>k. parse_value (Suc k) ts = Some (v, r)"
  proof (intro conjI allI impI)
    show "length r < length ts" using that by simp
    fix m assume "length ts - length r \<le> m"
    with that obtain k where "m = Suc k" by (cases m) auto
    with that show "parse_value m ts = Some (v, r)" by simp
  qed
  show "length r < length ts \<and>
      (\<forall>m. length ts - length r \<le> m \<longrightarrow> parse_value m ts = Some (v, r))"
  proof (cases t)
    case LBracket
    show ?thesis
    proof (cases "expect RBracket ts'")
      case (Some rest)
      with a ts LBracket show ?thesis
        by (intro scalar) (auto simp: expect_Some expect_Cons)
    next
      case None
      with a ts LBracket obtain vs rest where
        el: "parse_elements n ts' = Some (vs, rest)" and r: "rest = RBracket # r"
        and v: "v = JArray vs"
        by (auto simp: expect_Some split: option.splits)
      note l = fuel_elementsD(1) [OF E el] and f = fuel_elementsD(2) [OF E el]
      show ?thesis
      proof (intro conjI allI impI)
        show "length r < length ts" using l r ts by simp
        fix m assume m: "length ts - length r \<le> m"
        with l r ts obtain k where k: "m = Suc k" "length ts' - length rest < k"
          by (cases m) auto
        from f [OF k(2)] show "parse_value m ts = Some (v, r)"
          by (simp add: k ts LBracket None r v expect_Cons)
      qed
    qed
  next
    case LBrace
    show ?thesis
    proof (cases "expect RBrace ts'")
      case (Some rest)
      with a ts LBrace show ?thesis
        by (intro scalar) (auto simp: expect_Some expect_Cons)
    next
      case None
      with a ts LBrace obtain kvs rest where
        el: "parse_members n ts' = Some (kvs, rest)" and r: "rest = RBrace # r"
        and v: "v = JObject kvs"
        by (auto simp: expect_Some split: option.splits)
      note l = fuel_membersD(1) [OF M el] and f = fuel_membersD(2) [OF M el]
      show ?thesis
      proof (intro conjI allI impI)
        show "length r < length ts" using l r ts by simp
        fix m assume m: "length ts - length r \<le> m"
        with l r ts obtain k where k: "m = Suc k" "length ts' - length rest \<le> k"
          by (cases m) auto
        from f [OF k(2)] show "parse_value m ts = Some (v, r)"
          by (simp add: k ts LBrace None r v expect_Cons)
      qed
    qed
  next
    case RBrace
    with a ts show ?thesis by simp
  next
    case RBracket
    with a ts show ?thesis by simp
  next
    case Colon
    with a ts show ?thesis by simp
  next
    case Comma
    with a ts show ?thesis by simp
  next
    case (TString x)
    with a ts show ?thesis by (intro scalar) auto
  next
    case (TNumber x)
    with a ts show ?thesis by (intro scalar) auto
  next
    case TTrue
    with a ts show ?thesis by (intro scalar) auto
  next
    case TFalse
    with a ts show ?thesis by (intro scalar) auto
  next
    case TNull
    with a ts show ?thesis by (intro scalar) auto
  qed
qed

lemma fuel_elements_step:
  assumes V: "fuel_ok_value n" and E: "fuel_ok_elements n"
  shows "fuel_ok_elements (Suc n)"
  unfolding fuel_ok_elements_def
proof (intro allI impI)
  fix ts vs r
  assume a: "parse_elements (Suc n) ts = Some (vs, r)"
  then obtain v rest where pv: "parse_value n ts = Some (v, rest)"
    by (auto split: option.splits)
  note lv = fuel_valueD(1) [OF V pv] and fv = fuel_valueD(2) [OF V pv]
  show "length r < length ts \<and>
      (\<forall>m. length ts - length r < m \<longrightarrow> parse_elements m ts = Some (vs, r))"
  proof (cases "expect Comma rest")
    case None
    with a pv have r: "r = rest" "vs = [v]" by auto
    show ?thesis
    proof (intro conjI allI impI)
      show "length r < length ts" using lv r by simp
      fix m assume "length ts - length r < m"
      then obtain k where k: "m = Suc k" "length ts - length rest \<le> k"
        using r by (cases m) auto
      from fv [OF k(2)] show "parse_elements m ts = Some (vs, r)"
        by (simp add: k None r)
    qed
  next
    case (Some rest')
    with a pv obtain vs' where
      pe: "parse_elements n rest' = Some (vs', r)" and vs: "vs = v # vs'"
      by auto
    from Some have rest: "rest = Comma # rest'" by (simp add: expect_Some)
    note le = fuel_elementsD(1) [OF E pe] and fe = fuel_elementsD(2) [OF E pe]
    show ?thesis
    proof (intro conjI allI impI)
      show "length r < length ts" using lv le rest by simp
      fix m assume "length ts - length r < m"
      then obtain k where k: "m = Suc k" "length ts - length rest \<le> k"
        "length rest' - length r < k"
        using lv le rest by (cases m) auto
      from fv [OF k(2)] fe [OF k(3)] show "parse_elements m ts = Some (vs, r)"
        by (simp add: k Some vs)
    qed
  qed
qed

lemma fuel_members_step:
  assumes V: "fuel_ok_value n" and M: "fuel_ok_members n"
  shows "fuel_ok_members (Suc n)"
  unfolding fuel_ok_members_def
proof (intro allI impI)
  fix ts kvs r
  assume a: "parse_members (Suc n) ts = Some (kvs, r)"
  then obtain key ts2 where ts: "ts = TString key # Colon # ts2"
    by (auto simp: expect_Some split: list.splits token.splits option.splits)
  with a obtain v rest where pv: "parse_value n ts2 = Some (v, rest)"
    by (auto simp: expect_Cons split: option.splits)
  note lv = fuel_valueD(1) [OF V pv] and fv = fuel_valueD(2) [OF V pv]
  show "length r < length ts \<and>
      (\<forall>m. length ts - length r \<le> m \<longrightarrow> parse_members m ts = Some (kvs, r))"
  proof (cases "expect Comma rest")
    case None
    with a pv ts have r: "r = rest" "kvs = [(key, v)]" by (auto simp: expect_Cons)
    show ?thesis
    proof (intro conjI allI impI)
      show "length r < length ts" using lv r ts by simp
      fix m assume "length ts - length r \<le> m"
      then obtain k where k: "m = Suc k" "length ts2 - length rest \<le> k"
        using r ts lv by (cases m) auto
      from fv [OF k(2)] show "parse_members m ts = Some (kvs, r)"
        by (simp add: k None r ts expect_Cons)
    qed
  next
    case (Some rest')
    with a pv ts obtain kvs' where
      pe: "parse_members n rest' = Some (kvs', r)" and kvs: "kvs = (key, v) # kvs'"
      by (auto simp: expect_Cons)
    from Some have rest: "rest = Comma # rest'" by (simp add: expect_Some)
    note le = fuel_membersD(1) [OF M pe] and fe = fuel_membersD(2) [OF M pe]
    show ?thesis
    proof (intro conjI allI impI)
      show "length r < length ts" using lv le rest ts by simp
      fix m assume "length ts - length r \<le> m"
      then obtain k where k: "m = Suc k" "length ts2 - length rest \<le> k"
        "length rest' - length r \<le> k"
        using lv le rest ts by (cases m) auto
      from fv [OF k(2)] fe [OF k(3)] show "parse_members m ts = Some (kvs, r)"
        by (simp add: k Some kvs ts expect_Cons)
    qed
  qed
qed

lemma fuel_ok: "fuel_ok_value n \<and> fuel_ok_elements n \<and> fuel_ok_members n"
proof (induction n)
  case 0
  show ?case by (simp add: fuel_ok_value_def fuel_ok_elements_def fuel_ok_members_def)
next
  case (Suc n)
  then show ?case
    by (simp add: fuel_value_step fuel_elements_step fuel_members_step)
qed

lemma parse_value_enough:
  assumes "parse_value n ts = Some (v, r)"
  shows "parse_value (length ts) ts = Some (v, r)"
  using fuel_valueD(2) [OF _ assms, of "length ts"] fuel_ok by simp

subsection \<open>From trailing commas to the grammar of JSON\<close>

text \<open>
  Tokens that the grammar with trailing commas accepts are accepted by the grammar of
  JSON once the commas before closing tokens are dropped, whatever the texts of the
  strings.
\<close>

fun vstart :: "token list \<Rightarrow> bool" where
  "vstart [] = False"
| "vstart (t # _) = (t \<noteq> RBrace \<and> t \<noteq> RBracket \<and> t \<noteq> Colon \<and> t \<noteq> Comma)"

lemma kind_eq_simps [simp]:
  "kind t = LBrace \<longleftrightarrow> t = LBrace" "kind t = RBrace \<longleftrightarrow> t = RBrace"
  "kind t = LBracket \<longleftrightarrow> t = LBracket" "kind t = RBracket \<longleftrightarrow> t = RBracket"
  "kind t = Colon \<longleftrightarrow> t = Colon" "kind t = Comma \<longleftrightarrow> t = Comma"
  "kind t = TTrue \<longleftrightarrow> t = TTrue" "kind t = TFalse \<longleftrightarrow> t = TFalse"
  "kind t = TNull \<longleftrightarrow> t = TNull" "kind t = TNumber x \<longleftrightarrow> t = TNumber x"
  "kind t = TString s \<longleftrightarrow> s = [] \<and> (\<exists>y. t = TString y)"
  by (cases t; auto)+

lemma kind_eq_simps' [simp]:
  "LBrace = kind t \<longleftrightarrow> t = LBrace" "RBrace = kind t \<longleftrightarrow> t = RBrace"
  "LBracket = kind t \<longleftrightarrow> t = LBracket" "RBracket = kind t \<longleftrightarrow> t = RBracket"
  "Colon = kind t \<longleftrightarrow> t = Colon" "Comma = kind t \<longleftrightarrow> t = Comma"
  "TTrue = kind t \<longleftrightarrow> t = TTrue" "TFalse = kind t \<longleftrightarrow> t = TFalse"
  "TNull = kind t \<longleftrightarrow> t = TNull" "TNumber x = kind t \<longleftrightarrow> t = TNumber x"
  "TString s = kind t \<longleftrightarrow> s = [] \<and> (\<exists>y. t = TString y)"
  by (cases t; auto)+

lemma kinds_Cons:
  assumes "map kind ts' = t # X"
  obtains t' r' where "ts' = t' # r'" "kind t' = t" "map kind r' = X"
  using assms by (cases ts') auto

lemma kinds_Nil [simp]: "map kind ts' = [] \<longleftrightarrow> ts' = []"
  by simp

lemma drop_tc_vstart: "vstart ts \<Longrightarrow> \<exists>t ts1. ts = t # ts1 \<and> drop_tc ts = t # drop_tc ts1 \<and> vstart [t]"
  by (cases ts) auto

lemma vstart_not_closer: "vstart ts \<Longrightarrow> \<not> closer_next ts"
  by (cases ts) (auto simp: closer_next_def)

lemma tc_value_vstart: "parse_value_tc n ts = Some x \<Longrightarrow> vstart ts"
  by (cases n; cases ts) (auto split: token.splits)

lemma tc_elements_vstart: "parse_elements_tc n ts = Some x \<Longrightarrow> vstart ts"
  by (cases n) (auto split: option.splits dest: tc_value_vstart)

lemma tc_members_start:
  "parse_members_tc n ts = Some x \<Longrightarrow> \<exists>k ts2. ts = TString k # Colon # ts2"
  by (cases n) (auto simp: expect_Some split: list.splits token.splits option.splits)

definition sim_value :: "nat \<Rightarrow> bool" where
  "sim_value n \<longleftrightarrow>
     (\<forall>ts v r ts'. parse_value_tc n ts = Some (v, r) \<longrightarrow> map kind ts' = map kind (drop_tc ts) \<longrightarrow>
        (\<exists>v' r'. parse_value n ts' = Some (v', r') \<and> map kind r' = map kind (drop_tc r)))"

definition sim_elements :: "nat \<Rightarrow> bool" where
  "sim_elements n \<longleftrightarrow>
     (\<forall>ts vs r ts'. parse_elements_tc n ts = Some (vs, r) \<longrightarrow> map kind ts' = map kind (drop_tc ts) \<longrightarrow>
        (\<exists>vs' r'. parse_elements n ts' = Some (vs', r') \<and> map kind r' = map kind (drop_tc r)))"

definition sim_members :: "nat \<Rightarrow> bool" where
  "sim_members n \<longleftrightarrow>
     (\<forall>ts kvs r ts'. parse_members_tc n ts = Some (kvs, r) \<longrightarrow> map kind ts' = map kind (drop_tc ts) \<longrightarrow>
        (\<exists>kvs' r'. parse_members n ts' = Some (kvs', r') \<and> map kind r' = map kind (drop_tc r)))"

lemma sim_valueD:
  assumes "sim_value n" "parse_value_tc n ts = Some (v, r)" "map kind ts' = map kind (drop_tc ts)"
  obtains v' r' where "parse_value n ts' = Some (v', r')" "map kind r' = map kind (drop_tc r)"
  using assms unfolding sim_value_def by blast

lemma sim_elementsD:
  assumes "sim_elements n" "parse_elements_tc n ts = Some (vs, r)"
    "map kind ts' = map kind (drop_tc ts)"
  obtains vs' r' where "parse_elements n ts' = Some (vs', r')" "map kind r' = map kind (drop_tc r)"
  using assms unfolding sim_elements_def by blast

lemma sim_membersD:
  assumes "sim_members n" "parse_members_tc n ts = Some (kvs, r)"
    "map kind ts' = map kind (drop_tc ts)"
  obtains kvs' r' where "parse_members n ts' = Some (kvs', r')" "map kind r' = map kind (drop_tc r)"
  using assms unfolding sim_members_def by blast

lemma sim_value_step:
  assumes E: "sim_elements n" and M: "sim_members n"
  shows "sim_value (Suc n)"
  unfolding sim_value_def
proof (intro allI impI)
  fix ts v r ts'
  assume a: "parse_value_tc (Suc n) ts = Some (v, r)"
    and k: "map kind ts' = map kind (drop_tc ts)"
  from a obtain t ts1 where ts: "ts = t # ts1"
    by (cases ts) auto
  from a ts have t: "t \<noteq> Comma" by auto
  with k ts obtain t' ts1' where ts': "ts' = t' # ts1'" and t': "kind t' = kind t"
    and k1: "map kind ts1' = map kind (drop_tc ts1)"
    by (auto elim: kinds_Cons)
  show "\<exists>v' r'. parse_value (Suc n) ts' = Some (v', r') \<and> map kind r' = map kind (drop_tc r)"
  proof (cases t)
    case LBracket
    with t' have t'': "t' = LBracket" by simp
    show ?thesis
    proof (cases "expect RBracket ts1")
      case (Some rest)
      with a ts LBracket have "ts1 = RBracket # r" by (auto simp: expect_Some)
      with k1 obtain r' where "ts1' = RBracket # r'" "map kind r' = map kind (drop_tc r)"
        by (auto elim: kinds_Cons)
      then show ?thesis by (simp add: ts' t'' expect_Cons)
    next
      case None
      with a ts LBracket obtain vs rest where
        pe: "parse_elements_tc n ts1 = Some (vs, rest)" and rest: "rest = RBracket # r"
        by (auto simp: expect_Some split: option.splits)
      from tc_elements_vstart [OF pe] k1 have n': "expect RBracket ts1' = None"
        by (cases ts1; cases ts1') (auto simp: expect_Cons)
      from E pe k1 obtain vs' rest' where
        pe': "parse_elements n ts1' = Some (vs', rest')"
        and kr: "map kind rest' = map kind (drop_tc rest)"
        by (rule sim_elementsD)
      from kr rest obtain r' where "rest' = RBracket # r'" "map kind r' = map kind (drop_tc r)"
        by (auto elim: kinds_Cons)
      with pe' n' show ?thesis by (simp add: ts' t'' expect_Cons)
    qed
  next
    case LBrace
    with t' have t'': "t' = LBrace" by simp
    show ?thesis
    proof (cases "expect RBrace ts1")
      case (Some rest)
      with a ts LBrace have "ts1 = RBrace # r" by (auto simp: expect_Some)
      with k1 obtain r' where "ts1' = RBrace # r'" "map kind r' = map kind (drop_tc r)"
        by (auto elim: kinds_Cons)
      then show ?thesis by (simp add: ts' t'' expect_Cons)
    next
      case None
      with a ts LBrace obtain kvs rest where
        pe: "parse_members_tc n ts1 = Some (kvs, rest)" and rest: "rest = RBrace # r"
        by (auto simp: expect_Some split: option.splits)
      from tc_members_start [OF pe] k1 have n': "expect RBrace ts1' = None"
        by (cases ts1') (auto simp: expect_Cons expect_Nil)
      from M pe k1 obtain kvs' rest' where
        pe': "parse_members n ts1' = Some (kvs', rest')"
        and kr: "map kind rest' = map kind (drop_tc rest)"
        by (rule sim_membersD)
      from kr rest obtain r' where "rest' = RBrace # r'" "map kind r' = map kind (drop_tc r)"
        by (auto elim: kinds_Cons)
      with pe' n' show ?thesis by (simp add: ts' t'' expect_Cons)
    qed
  next
    case RBrace
    with a ts show ?thesis by simp
  next
    case RBracket
    with a ts show ?thesis by simp
  next
    case Colon
    with a ts show ?thesis by simp
  next
    case Comma
    with a ts show ?thesis by simp
  next
    case (TString x)
    with a ts t' k1 show ?thesis by (auto simp: ts')
  next
    case (TNumber x)
    with a ts t' k1 show ?thesis by (auto simp: ts')
  next
    case TTrue
    with a ts t' k1 show ?thesis by (auto simp: ts')
  next
    case TFalse
    with a ts t' k1 show ?thesis by (auto simp: ts')
  next
    case TNull
    with a ts t' k1 show ?thesis by (auto simp: ts')
  qed
qed


lemma drop_tc_not_Comma: "expect Comma ts = None \<Longrightarrow> map kind ts' = map kind (drop_tc ts)
    \<Longrightarrow> expect Comma ts' = None"
  by (cases ts; cases ts') (auto simp: expect_Cons expect_Nil split: if_splits)

lemma sim_elements_step:
  assumes V: "sim_value n" and E: "sim_elements n"
  shows "sim_elements (Suc n)"
  unfolding sim_elements_def
proof (intro allI impI)
  fix ts vs r ts'
  assume a: "parse_elements_tc (Suc n) ts = Some (vs, r)"
    and k: "map kind ts' = map kind (drop_tc ts)"
  from a obtain v rest where pv: "parse_value_tc n ts = Some (v, rest)"
    by (auto split: option.splits)
  from V pv k obtain v' rest' where
    pv': "parse_value n ts' = Some (v', rest')"
    and kr: "map kind rest' = map kind (drop_tc rest)"
    by (rule sim_valueD)
  show "\<exists>vs' r'. parse_elements (Suc n) ts' = Some (vs', r') \<and> map kind r' = map kind (drop_tc r)"
  proof (cases "expect Comma rest")
    case None
    with a pv have r: "r = rest" by auto
    from drop_tc_not_Comma [OF None kr] pv' kr r show ?thesis by simp
  next
    case (Some rest1)
    then have rest: "rest = Comma # rest1" by (simp add: expect_Some)
    show ?thesis
    proof (cases "expect RBracket rest1")
      case c: (Some x)
      with a pv Some have r: "r = rest1" by auto
      from c have r1: "rest1 = RBracket # x" by (simp add: expect_Some)
      with rest kr have kr': "map kind rest' = map kind (drop_tc rest1)"
        by (simp add: closer_next_def)
      with r1 have "expect Comma rest' = None"
        by (cases rest') (auto simp: expect_Cons expect_Nil)
      with pv' kr' r show ?thesis by simp
    next
      case None
      with a pv Some obtain vs1 where
        pe: "parse_elements_tc n rest1 = Some (vs1, r)"
        by auto
      from tc_elements_vstart [OF pe] have "\<not> closer_next rest1"
        by (rule vstart_not_closer)
      with rest kr obtain rest1' where r': "rest' = Comma # rest1'"
        and k1: "map kind rest1' = map kind (drop_tc rest1)"
        by (auto elim: kinds_Cons)
      from E pe k1 obtain vs1' r' where
        "parse_elements n rest1' = Some (vs1', r')" "map kind r' = map kind (drop_tc r)"
        by (rule sim_elementsD)
      with pv' r' show ?thesis by (simp add: expect_Cons)
    qed
  qed
qed

lemma sim_members_step:
  assumes V: "sim_value n" and M: "sim_members n"
  shows "sim_members (Suc n)"
  unfolding sim_members_def
proof (intro allI impI)
  fix ts kvs r ts'
  assume a: "parse_members_tc (Suc n) ts = Some (kvs, r)"
    and k: "map kind ts' = map kind (drop_tc ts)"
  from tc_members_start [OF a] obtain key ts2 where ts: "ts = TString key # Colon # ts2"
    by blast
  with a obtain v rest where pv: "parse_value_tc n ts2 = Some (v, rest)"
    by (auto simp: expect_Cons split: option.splits)
  from k ts obtain key' ts2' where ts': "ts' = TString key' # Colon # ts2'"
    and k2: "map kind ts2' = map kind (drop_tc ts2)"
    by (auto simp: closer_next_def elim!: kinds_Cons)
  from V pv k2 obtain v' rest' where
    pv': "parse_value n ts2' = Some (v', rest')"
    and kr: "map kind rest' = map kind (drop_tc rest)"
    by (rule sim_valueD)
  show "\<exists>kvs' r'. parse_members (Suc n) ts' = Some (kvs', r') \<and> map kind r' = map kind (drop_tc r)"
  proof (cases "expect Comma rest")
    case None
    with a pv ts have r: "r = rest" by (auto simp: expect_Cons)
    from drop_tc_not_Comma [OF None kr] pv' kr r show ?thesis
      by (simp add: ts' expect_Cons)
  next
    case (Some rest1)
    then have rest: "rest = Comma # rest1" by (simp add: expect_Some)
    show ?thesis
    proof (cases "expect RBrace rest1")
      case c: (Some x)
      with a pv Some ts have r: "r = rest1" by (auto simp: expect_Cons)
      from c have r1: "rest1 = RBrace # x" by (simp add: expect_Some)
      with rest kr have kr': "map kind rest' = map kind (drop_tc rest1)"
        by (simp add: closer_next_def)
      with r1 have "expect Comma rest' = None"
        by (cases rest') (auto simp: expect_Cons expect_Nil)
      with pv' kr' r show ?thesis by (simp add: ts' expect_Cons)
    next
      case None
      with a pv Some ts obtain kvs1 where
        pe: "parse_members_tc n rest1 = Some (kvs1, r)"
        by (auto simp: expect_Cons)
      from tc_members_start [OF pe] have "\<not> closer_next rest1"
        by (auto simp: closer_next_def)
      with rest kr obtain rest1' where r': "rest' = Comma # rest1'"
        and k1: "map kind rest1' = map kind (drop_tc rest1)"
        by (auto elim: kinds_Cons)
      from M pe k1 obtain kvs1' r' where
        "parse_members n rest1' = Some (kvs1', r')" "map kind r' = map kind (drop_tc r)"
        by (rule sim_membersD)
      with pv' r' show ?thesis by (simp add: ts' expect_Cons)
    qed
  qed
qed

lemma sim_ok: "sim_value n \<and> sim_elements n \<and> sim_members n"
proof (induction n)
  case 0
  show ?case by (simp add: sim_value_def sim_elements_def sim_members_def)
next
  case (Suc n)
  then show ?case
    by (simp add: sim_value_step sim_elements_step sim_members_step)
qed

lemma tc_to_strict:
  assumes "parse_value_tc n ts = Some (v, [])" and "map kind ts' = map kind (drop_tc ts)"
  shows "\<exists>v'. parse_value (length ts') ts' = Some (v', [])"
proof -
  from sim_ok assms obtain v' r' where
    p: "parse_value n ts' = Some (v', r')" and "map kind r' = map kind (drop_tc [])"
    by (blast elim: sim_valueD)
  then have "r' = []" by simp
  with parse_value_enough [OF p] show ?thesis by blast
qed

subsection \<open>The lexer and the sanitized text\<close>

text \<open>
  What the lexer of a number looks at in the text after the number: whether a digit, a
  point or an exponent mark comes next.
\<close>

definition next_digit :: "string \<Rightarrow> bool" where
  "next_digit r \<longleftrightarrow> (case r of [] \<Rightarrow> False | c # _ \<Rightarrow> is_digit c)"

definition next_dot :: "string \<Rightarrow> bool" where
  "next_dot r \<longleftrightarrow> (case r of [] \<Rightarrow> False | c # _ \<Rightarrow> c = CHR ''.'')"

definition next_exp :: "string \<Rightarrow> bool" where
  "next_exp r \<longleftrightarrow> (case r of [] \<Rightarrow> False | c # _ \<Rightarrow> c = CHR ''e'' \<or> c = CHR ''E'')"

definition same_next :: "string \<Rightarrow> string \<Rightarrow> bool" where
  "same_next r r' \<longleftrightarrow>
     (next_digit r' \<longrightarrow> next_digit r) \<and> (next_dot r' \<longrightarrow> next_dot r) \<and> (next_exp r' \<longrightarrow> next_exp r)"

lemma same_next_append: "a \<noteq> [] \<or> same_next r r' \<Longrightarrow> same_next (a @ r) (a @ r')"
  by (cases a) (auto simp: same_next_def next_digit_def next_dot_def next_exp_def)

lemma takeWhile_digits:
  "\<not> next_digit r \<Longrightarrow> \<forall>c \<in> set ds. is_digit c \<Longrightarrow> takeWhile is_digit (ds @ r) = ds"
  by (cases r) (auto simp: next_digit_def takeWhile_append)

lemma dropWhile_digits:
  "\<not> next_digit r \<Longrightarrow> \<forall>c \<in> set ds. is_digit c \<Longrightarrow> dropWhile is_digit (ds @ r) = r"
  by (cases r) (auto simp: next_digit_def dropWhile_append)

lemma not_next_digit_dropWhile: "\<not> next_digit (dropWhile is_digit s)"
  by (induction s) (auto simp: next_digit_def)

lemma lex_digits_again:
  assumes "lex_digits s = Some (ds, r)" and "same_next r r'"
  shows "s = ds @ r \<and> ds \<noteq> [] \<and> lex_digits (ds @ r') = Some (ds, r')"
proof -
  from assms(1) have ds: "ds = takeWhile is_digit s" "r = dropWhile is_digit s" "ds \<noteq> []"
    by (auto simp: lex_digits_def split: if_splits)
  then have all: "\<forall>c \<in> set ds. is_digit c"
    by (auto dest: set_takeWhileD)
  from ds have "\<not> next_digit r" by (simp add: not_next_digit_dropWhile)
  with assms(2) have nd: "\<not> next_digit r'" by (auto simp: same_next_def)
  have t: "takeWhile is_digit (ds @ r') = ds" and d: "dropWhile is_digit (ds @ r') = r'"
    using nd all by (rule takeWhile_digits, rule dropWhile_digits)
  have "s = ds @ r" by (simp add: ds(1,2))
  moreover have "lex_digits (ds @ r') = Some (ds, r')"
    unfolding lex_digits_def t d using ds(3) by simp
  ultimately show ?thesis using ds(3) by simp
qed

lemma lex_int_again:
  assumes "lex_int s = Some (ip, r)" and "same_next r r'"
  shows "s = ip @ r \<and> ip \<noteq> [] \<and> is_digit (hd ip) \<and> lex_int (ip @ r') = Some (ip, r')"
proof -
  from assms(1) obtain d s' where s: "s = d # s'"
    by (cases s) (auto simp: lex_int_def)
  show ?thesis
  proof (cases "d = CHR ''0''")
    case True
    with assms(1) s show ?thesis by (auto simp: lex_int_def is_digit_def)
  next
    case False
    with assms(1) s have d: "is_digit d" and ip: "ip = d # takeWhile is_digit s'"
      and r: "r = dropWhile is_digit s'"
      by (auto simp: lex_int_def split: if_splits)
    from r have "\<not> next_digit r" by (simp add: not_next_digit_dropWhile)
    with assms(2) have "\<not> next_digit r'" by (auto simp: same_next_def)
    then have "takeWhile is_digit (takeWhile is_digit s' @ r') = takeWhile is_digit s'"
      "dropWhile is_digit (takeWhile is_digit s' @ r') = r'"
      by (auto intro!: takeWhile_digits dropWhile_digits dest: set_takeWhileD)
    with False d ip r s show ?thesis
      by (simp add: lex_int_def)
  qed
qed

lemma lex_frac_again:
  assumes "lex_frac s = Some (fp, r)" and "same_next r r'"
  shows "s = fp @ r \<and> lex_frac (fp @ r') = Some (fp, r')"
proof (cases "next_dot s")
  case True
  then obtain s' where s: "s = CHR ''.'' # s'"
    by (cases s) (auto simp: next_dot_def)
  with assms(1) obtain ds where "lex_digits s' = Some (ds, r)" "fp = CHR ''.'' # ds"
    by (auto simp: lex_frac_def)
  with lex_digits_again [OF this(1) assms(2)] s show ?thesis
    by (simp add: lex_frac_def)
next
  case False
  with assms(1) have "fp = []" "r = s"
    by (auto simp: lex_frac_def next_dot_def split: list.splits if_splits)
  moreover from this False assms(2) have "\<not> next_dot r'"
    by (auto simp: same_next_def)
  ultimately show ?thesis
    by (auto simp: lex_frac_def next_dot_def split: list.splits)
qed

lemma lex_exp_again:
  assumes "lex_exp s = Some (ep, r)" and "same_next r r'"
  shows "s = ep @ r \<and> lex_exp (ep @ r') = Some (ep, r')"
proof (cases "next_exp s")
  case True
  then obtain e s' where s: "s = e # s'" and e: "e = CHR ''e'' \<or> e = CHR ''E''"
    by (cases s) (auto simp: next_exp_def)
  obtain sg s'' where sg: "lex_sign s' = (sg, s'')" by (cases "lex_sign s'")
  with assms(1) s e obtain ds where d: "lex_digits s'' = Some (ds, r)" and ep: "ep = e # sg @ ds"
    by (auto simp: lex_exp_def)
  from lex_digits_again [OF d assms(2)] have
    x: "s'' = ds @ r" "ds \<noteq> []" "lex_digits (ds @ r') = Some (ds, r')" by auto
  from sg have s': "s' = sg @ s''"
    by (auto simp: lex_sign_def split: list.splits if_splits)
  from d have "is_digit (hd ds)"
    by (auto simp: lex_digits_def split: if_splits dest!: hd_in_set [THEN set_takeWhileD])
  with x(2) have hd: "hd ds \<noteq> CHR ''+''" "hd ds \<noteq> CHR ''-''"
    by (auto simp: is_digit_def)
  from sg s' x(1,2) hd have "lex_sign (sg @ ds @ r') = (sg, ds @ r')"
    by (cases ds) (auto simp: lex_sign_def split: list.splits if_splits)
  with x e show ?thesis
    by (auto simp: lex_exp_def s s' ep)
next
  case False
  with assms(1) have "ep = []" "r = s"
    by (auto simp: lex_exp_def next_exp_def split: list.splits if_splits)
  moreover from this False assms(2) have "\<not> next_exp r'"
    by (auto simp: same_next_def)
  ultimately show ?thesis
    by (auto simp: lex_exp_def next_exp_def split: list.splits)
qed

lemma lex_number_again:
  assumes "lex_number s = Some (lx, r)" and "same_next r r'"
  shows "s = lx @ r \<and> lx \<noteq> [] \<and> lex_number (lx @ r') = Some (lx, r')"
proof -
  obtain neg s1 where m: "lex_minus s = (neg, s1)" by (cases "lex_minus s")
  with assms(1) obtain ip s2 fp s3 ep where
    i: "lex_int s1 = Some (ip, s2)" and f: "lex_frac s2 = Some (fp, s3)"
    and e: "lex_exp s3 = Some (ep, r)" and lx: "lx = neg @ ip @ fp @ ep"
    by (auto simp: lex_number_def split: option.splits)
  from lex_exp_again [OF e assms(2)] have e': "s3 = ep @ r" "lex_exp (ep @ r') = Some (ep, r')"
    by auto
  have "same_next s3 (ep @ r')"
    unfolding e'(1) using assms(2) by (intro same_next_append) simp
  from lex_frac_again [OF f this] have
    f': "s2 = fp @ s3" "lex_frac (fp @ ep @ r') = Some (fp, ep @ r')" by auto
  have "same_next s2 (fp @ ep @ r')"
    unfolding f'(1) e'(1) using assms(2)
    by (metis append_assoc append_is_Nil_conv same_next_append)
  from lex_int_again [OF i this] have
    i': "s1 = ip @ s2" "ip \<noteq> []" "is_digit (hd ip)"
    "lex_int (ip @ fp @ ep @ r') = Some (ip, fp @ ep @ r')" by auto
  from m have s: "s = neg @ s1" and neg: "neg = [] \<or> neg = ''-''"
    by (auto simp: lex_minus_def split: list.splits if_splits)
  from i'(2,3) have "hd ip \<noteq> CHR ''-''" by (auto simp: is_digit_def)
  with neg i'(2) have "lex_minus (neg @ ip @ fp @ ep @ r') = (neg, ip @ fp @ ep @ r')"
    by (cases ip) (auto simp: lex_minus_def)
  with i' f' e' s lx show ?thesis
    by (simp add: lex_number_def)
qed


lemma rtc_no_comma: "CHR '','' \<notin> set a \<Longrightarrow> remove_trailing_commas (a @ x) = a @ remove_trailing_commas x"
  by (induction a) auto

lemma is_json_ws_space: "is_json_ws c \<Longrightarrow> is_space c"
  by (auto simp: is_json_ws_def is_space_def)

lemma before_closer_Cons:
  "before_closer (c # x) \<longleftrightarrow> (if is_space c then before_closer x else c = CHR ''}'' \<or> c = CHR '']'')"
  by (simp add: before_closer_def)

lemma same_next_rtc: "same_next r (remove_trailing_commas r)"
proof (cases r)
  case Nil
  then show ?thesis by (simp add: same_next_def)
next
  case (Cons c x)
  show ?thesis
  proof (cases "c = CHR '','' \<and> before_closer x")
    case True
    then obtain d y where x: "x = d # y" and d: "is_space d \<or> d = CHR ''}'' \<or> d = CHR '']''"
      by (cases x) (auto simp: before_closer_def split: if_splits)
    from d have "d \<noteq> CHR '',''" "\<not> is_digit d" "d \<noteq> CHR ''.''" "d \<noteq> CHR ''e''" "d \<noteq> CHR ''E''"
      by (auto simp: is_space_def is_digit_def)
    with True Cons x show ?thesis
      by (simp add: same_next_def next_digit_def next_dot_def next_exp_def)
  next
    case False
    with Cons show ?thesis
      by (auto simp: same_next_def next_digit_def next_dot_def next_exp_def)
  qed
qed

lemma tokenize_skip: "tokenize s = tokenize (dropWhile is_json_ws s)"
  by (subst tokenize.simps, subst (2) tokenize.simps) simp

lemma tokenize_Nil: "tokenize [] = Some []"
  by (subst tokenize.simps) simp

lemma tokenize_step:
  assumes "\<not> is_json_ws c" "lex_token (c # y) = Some (t, rest)" "tokenize rest = Some ts"
  shows "tokenize (c # y) = Some (t # ts)"
  using assms by (subst tokenize.simps) simp

lemma tokenize_cases:
  assumes "tokenize s = Some ts"
  obtains (empty) "dropWhile is_json_ws s = []" "ts = []"
  | (token) c cs t rest ts1 where "dropWhile is_json_ws s = c # cs" "\<not> is_json_ws c"
      "lex_token (c # cs) = Some (t, rest)" "tokenize rest = Some ts1" "ts = t # ts1"
proof (cases "dropWhile is_json_ws s")
  case Nil
  with assms have "ts = []" by (subst (asm) tokenize.simps) simp
  with Nil show ?thesis by (rule empty)
next
  case (Cons c cs)
  then have c: "\<not> is_json_ws c" by (metis hd_dropWhile list.sel(1) list.simps(3))
  from assms Cons obtain t rest ts1 where
    "lex_token (c # cs) = Some (t, rest)" "tokenize rest = Some ts1" "ts = t # ts1"
    by (subst (asm) tokenize.simps) (auto split: option.splits)
  with Cons c show ?thesis by (rule token)
qed

lemma lex_token_cases:
  assumes "lex_token (c # cs) = Some (t, rest)"
  obtains (punct) "punctuator c = Some t" "rest = cs"
  | (str) x where \<open>c = CHR ''"''\<close> "lex_string cs = Some (x, rest)" "t = TString x"
  | (num) x where "c = CHR ''-'' \<or> is_digit c" "lex_number (c # cs) = Some (x, rest)" "t = TNumber x"
  | (lit) "punctuator c = None" \<open>c \<noteq> CHR ''"''\<close> "\<not> (c = CHR ''-'' \<or> is_digit c)"
      "lex_literal (c # cs) = Some (t, rest)"
  using assms by (auto simp: lex_token_def split: option.splits if_splits)

lemma punctuator_cases:
  assumes "punctuator c = Some t"
  shows "(c = CHR ''{'' \<and> t = LBrace) \<or> (c = CHR ''}'' \<and> t = RBrace) \<or>
         (c = CHR ''['' \<and> t = LBracket) \<or> (c = CHR '']'' \<and> t = RBracket) \<or>
         (c = CHR '':'' \<and> t = Colon) \<or> (c = CHR '','' \<and> t = Comma)"
  using assms by (auto simp: punctuator_def split: if_splits)

lemma closer_char:
  assumes "lex_token (c # cs) = Some (t, rest)"
  shows "(c = CHR ''}'' \<or> c = CHR '']'') \<longleftrightarrow> (t = RBrace \<or> t = RBracket)"
  using assms
  by (cases rule: lex_token_cases)
     (auto simp: punctuator_def lex_literal_def is_digit_def split: if_splits)

lemma token_start_not_space:
  assumes "lex_token (c # cs) = Some (t, rest)"
  shows "\<not> is_space c"
  using assms
  by (cases rule: lex_token_cases)
     (auto simp: punctuator_def lex_literal_def is_digit_def is_space_def split: if_splits)

lemma dropWhile_space_json:
  assumes "dropWhile is_json_ws s = c # cs" "\<not> is_space c"
  shows "dropWhile is_space s = c # cs"
  using assms by (induction s) (auto simp: is_json_ws_space split: if_splits)

lemma dropWhile_space_json_Nil:
  assumes "dropWhile is_json_ws s = []"
  shows "dropWhile is_space s = []"
  using assms by (induction s) (auto simp: is_json_ws_space split: if_splits)

lemma before_closer_tokens:
  assumes "tokenize s = Some ts"
  shows "before_closer s \<longleftrightarrow> closer_next ts"
  using assms
proof (cases rule: tokenize_cases)
  case empty
  then show ?thesis
    by (simp add: before_closer_def closer_next_def dropWhile_space_json_Nil)
next
  case (token c cs t rest ts1)
  from dropWhile_space_json [OF token(1) token_start_not_space [OF token(3)]]
    closer_char [OF token(3)] token(5)
  show ?thesis by (simp add: before_closer_def closer_next_def)
qed


lemma hex_value_not_comma: "hex_value h = Some x \<Longrightarrow> h \<noteq> CHR '',''"
  by (auto simp: hex_value_def Let_def split: if_splits)

lemma hex4_not_comma:
  "hex4 h1 h2 h3 h4 = Some u \<Longrightarrow> CHR '','' \<notin> set [h1, h2, h3, h4]"
  by (auto simp: hex4_def dest: hex_value_not_comma split: option.splits)

lemma unescape_not_comma: "unescape e = Some u \<Longrightarrow> e \<noteq> CHR '',''"
  by (auto simp: unescape_def split: if_splits)

lemma lex_string_rtc:
  "lex_string cs = Some (str, rest) \<Longrightarrow>
     \<exists>str'. lex_string (remove_trailing_commas cs) = Some (str', remove_trailing_commas rest)"
proof (induction cs arbitrary: str rule: lex_string.induct)
  case 1
  then show ?case by simp
next
  case (2 c cs)
  consider (quote) \<open>c = CHR ''"''\<close>
    | (uni) h1 h2 h3 h4 cs2 u where \<open>c \<noteq> CHR ''"''\<close> "c = CHR 0x5C"
        "cs = CHR ''u'' # h1 # h2 # h3 # h4 # cs2" "hex4 h1 h2 h3 h4 = Some u"
    | (esc) e cs1 u where \<open>c \<noteq> CHR ''"''\<close> "c = CHR 0x5C" "cs = e # cs1" "e \<noteq> CHR ''u''"
        "unescape e = Some u"
    | (raw) \<open>c \<noteq> CHR ''"''\<close> "c \<noteq> CHR 0x5C" "\<not> (of_char c :: nat) \<le> 31"
    using "2.prems" by (auto split: if_splits list.splits option.splits)
  then show ?case
  proof cases
    case quote
    with "2.prems" show ?thesis by auto
  next
    case uni
    with "2.prems" obtain str2 where l: "lex_string cs2 = Some (str2, rest)"
      by auto
    from "2.IH"(1) [OF uni(1,2) uni(3) _ refl refl refl refl uni(4) l]
    obtain str' where
      "lex_string (remove_trailing_commas cs2) = Some (str', remove_trailing_commas rest)"
      by auto
    moreover have "remove_trailing_commas (c # cs) =
        [c, CHR ''u'', h1, h2, h3, h4] @ remove_trailing_commas cs2"
      using rtc_no_comma [of "[c, CHR ''u'', h1, h2, h3, h4]" cs2] hex4_not_comma [OF uni(4)] uni
      by simp
    ultimately show ?thesis using uni by simp
  next
    case esc
    with "2.prems" obtain str2 where l: "lex_string cs1 = Some (str2, rest)"
      by auto
    from "2.IH"(2) [OF esc(1,2) esc(3) esc(4) esc(5) l]
    obtain str' where
      "lex_string (remove_trailing_commas cs1) = Some (str', remove_trailing_commas rest)"
      by auto
    moreover have "remove_trailing_commas (c # cs) = [c, e] @ remove_trailing_commas cs1"
      using rtc_no_comma [of "[c, e]" cs1] unescape_not_comma [OF esc(5)] esc
      by simp
    ultimately show ?thesis using esc by simp
  next
    case raw
    with "2.prems" obtain str2 where l: "lex_string cs = Some (str2, rest)"
      by auto
    from "2.IH"(3) [OF raw l]
    obtain str' where
      "lex_string (remove_trailing_commas cs) = Some (str', remove_trailing_commas rest)"
      by auto
    with raw show ?thesis by auto
  qed
qed

lemma lex_digits_chars: "lex_digits s = Some (ds, r) \<Longrightarrow> \<forall>c \<in> set ds. is_digit c"
  by (auto simp: lex_digits_def split: if_splits dest: set_takeWhileD)

definition number_char :: "char \<Rightarrow> bool" where
  "number_char c \<longleftrightarrow> is_digit c \<or> c = CHR ''-'' \<or> c = CHR ''+'' \<or> c = CHR ''.'' \<or> c = CHR ''e'' \<or> c = CHR ''E''"

lemma lex_number_chars:
  assumes "lex_number s = Some (lx, r)"
  shows "\<forall>c \<in> set lx. number_char c"
proof -
  obtain neg s1 where m: "lex_minus s = (neg, s1)" by (cases "lex_minus s")
  with assms obtain ip s2 fp s3 ep where
    i: "lex_int s1 = Some (ip, s2)" and f: "lex_frac s2 = Some (fp, s3)"
    and e: "lex_exp s3 = Some (ep, r)" and lx: "lx = neg @ ip @ fp @ ep"
    by (auto simp: lex_number_def split: option.splits)
  from m have "\<forall>c \<in> set neg. number_char c"
    by (auto simp: lex_minus_def number_char_def split: list.splits if_splits)
  moreover from i have "\<forall>c \<in> set ip. number_char c"
    by (auto simp: lex_int_def number_char_def is_digit_def split: list.splits if_splits
        dest!: set_takeWhileD)
  moreover from f have "\<forall>c \<in> set fp. number_char c"
    by (auto simp: lex_frac_def number_char_def split: list.splits if_splits
        dest!: lex_digits_chars)
  moreover from e have "\<forall>c \<in> set ep. number_char c"
    by (auto simp: lex_exp_def lex_sign_def number_char_def split: list.splits if_splits prod.splits
        dest!: lex_digits_chars)
  ultimately show ?thesis by (auto simp: lx)
qed

lemma number_char_not_comma: "number_char c \<Longrightarrow> c \<noteq> CHR '',''"
  by (auto simp: number_char_def is_digit_def)

lemma lex_literal_split:
  assumes "lex_literal s = Some (t, rest)"
  shows "\<exists>w. s = w @ rest \<and> (w = ''true'' \<or> w = ''false'' \<or> w = ''null'') \<and>
             (\<forall>rest'. lex_literal (w @ rest') = Some (t, rest'))"
proof -
  have *: "s = take n s @ drop n s" for n by simp
  from assms consider "take 4 s = ''true''" "t = TTrue" "rest = drop 4 s"
    | "take 5 s = ''false''" "t = TFalse" "rest = drop 5 s"
    | "take 4 s = ''null''" "t = TNull" "rest = drop 4 s"
    by (auto simp: lex_literal_def split: if_splits)
  then show ?thesis
  proof cases
    case 1
    with * [of 4] show ?thesis by (intro exI [of _ "''true''"]) (simp add: lex_literal_def)
  next
    case 2
    with * [of 5] show ?thesis by (intro exI [of _ "''false''"]) (simp add: lex_literal_def)
  next
    case 3
    with * [of 4] show ?thesis by (intro exI [of _ "''null''"]) (simp add: lex_literal_def)
  qed
qed



lemma json_ws_not_comma: "is_json_ws c \<Longrightarrow> c \<noteq> CHR '',''"
  by (auto simp: is_json_ws_def)

lemma rtc_skip:
  "remove_trailing_commas s =
     takeWhile is_json_ws s @ remove_trailing_commas (dropWhile is_json_ws s)"
proof -
  have "CHR '','' \<notin> set (takeWhile is_json_ws s)"
    by (auto dest!: set_takeWhileD json_ws_not_comma)
  from rtc_no_comma [OF this, of "dropWhile is_json_ws s"] show ?thesis by simp
qed

lemma dropWhile_takeWhile_append:
  "dropWhile P (takeWhile P s @ x) = dropWhile P x"
  by (induction s) auto

lemma tokenize_rtc_skip:
  "tokenize (remove_trailing_commas s) = tokenize (remove_trailing_commas (dropWhile is_json_ws s))"
proof -
  let ?d = "remove_trailing_commas (dropWhile is_json_ws s)"
  have "tokenize (remove_trailing_commas s) = tokenize (takeWhile is_json_ws s @ ?d)"
    by (subst rtc_skip) simp
  also have "\<dots> = tokenize (dropWhile is_json_ws (takeWhile is_json_ws s @ ?d))"
    by (rule tokenize_skip)
  also have "\<dots> = tokenize (dropWhile is_json_ws ?d)"
    by (simp only: dropWhile_takeWhile_append)
  also have "\<dots> = tokenize ?d"
    by (rule tokenize_skip [symmetric])
  finally show ?thesis .
qed

lemma tokenize_rtc:
  "tokenize s = Some ts \<Longrightarrow>
     \<exists>ts'. tokenize (remove_trailing_commas s) = Some ts' \<and> map kind ts' = map kind (drop_tc ts)"
proof (induction s arbitrary: ts rule: tokenize.induct)
  case (1 s)
  from "1.prems" show ?case
  proof (cases rule: tokenize_cases)
    case empty
    have "tokenize (remove_trailing_commas s) = tokenize (remove_trailing_commas [])"
      by (subst tokenize_rtc_skip) (simp only: empty(1))
    then show ?thesis by (simp add: tokenize_Nil empty(2))
  next
    case (token c cs t rest ts1)
    from "1.IH" [OF token(1) token(3) refl token(4)] obtain ts1' where
      ih: "tokenize (remove_trailing_commas rest) = Some ts1'"
      "map kind ts1' = map kind (drop_tc ts1)"
      by blast
    have goal: "\<exists>ts'. tokenize (remove_trailing_commas (c # cs)) = Some ts' \<and>
                   map kind ts' = map kind (drop_tc (t # ts1))"
      using token(3)
    proof (cases rule: lex_token_cases)
      case punct
      show ?thesis
      proof (cases "c = CHR '',''")
        case True
        with punct have t: "t = Comma" by (simp add: punctuator_def)
        from before_closer_tokens [OF token(4)] punct
        have bc: "before_closer cs \<longleftrightarrow> closer_next ts1" by simp
        show ?thesis
        proof (cases "closer_next ts1")
          case True
          with bc \<open>c = CHR '',''\<close> ih punct t show ?thesis by simp
        next
          case False
          with bc \<open>c = CHR '',''\<close> punct
          have "remove_trailing_commas (c # cs) = c # remove_trailing_commas rest" by simp
          moreover have "lex_token (c # remove_trailing_commas rest) =
              Some (t, remove_trailing_commas rest)"
            using punct by (simp add: lex_token_def)
          ultimately show ?thesis
            using tokenize_step [OF token(2) _ ih(1)] ih(2) False t by simp
        qed
      next
        case False
        with punct have "remove_trailing_commas (c # cs) = c # remove_trailing_commas rest"
          and t: "t \<noteq> Comma"
          by (auto simp: punctuator_def split: if_splits)
        moreover have "lex_token (c # remove_trailing_commas rest) =
            Some (t, remove_trailing_commas rest)"
          using punct by (simp add: lex_token_def)
        ultimately show ?thesis
          using tokenize_step [OF token(2) _ ih(1)] ih(2) by simp
      qed
    next
      case (str x)
      from lex_string_rtc [OF str(2)] obtain x' where
        "lex_string (remove_trailing_commas cs) = Some (x', remove_trailing_commas rest)"
        by blast
      with str have "remove_trailing_commas (c # cs) = c # remove_trailing_commas cs"
        and "lex_token (c # remove_trailing_commas cs) =
               Some (TString x', remove_trailing_commas rest)"
        by (simp_all add: lex_token_def punctuator_def)
      with tokenize_step [OF token(2) this(2) ih(1)] ih(2) str(3) show ?thesis
        by simp
    next
      case (num x)
      from lex_number_again [OF num(2) same_next_rtc [of rest]]
      have x: "c # cs = x @ rest" "x \<noteq> []"
        "lex_number (x @ remove_trailing_commas rest) = Some (x, remove_trailing_commas rest)"
        by auto
      from lex_number_chars [OF num(2)] have "CHR '','' \<notin> set x"
        by (auto dest: number_char_not_comma)
      from rtc_no_comma [OF this, of rest] x(1)
      have r: "remove_trailing_commas (c # cs) = x @ remove_trailing_commas rest" by simp
      from x(1,2) obtain x1 where x1: "x = c # x1" by (cases x) auto
      from num(1) have "punctuator c = None" \<open>c \<noteq> CHR ''"''\<close>
        by (auto simp: punctuator_def is_digit_def)
      with num(1) x(3) have "lex_token (c # x1 @ remove_trailing_commas rest) =
          Some (TNumber x, remove_trailing_commas rest)"
        by (simp add: lex_token_def x1)
      from tokenize_step [OF token(2) this ih(1)] ih(2) num(3) r x1 show ?thesis
        by simp
    next
      case lit
      from lex_literal_split [OF lit(4)] obtain w where
        w: "c # cs = w @ rest" "w = ''true'' \<or> w = ''false'' \<or> w = ''null''"
        "\<And>rest'. lex_literal (w @ rest') = Some (t, rest')"
        by blast
      from w(2) have "CHR '','' \<notin> set w" by auto
      from rtc_no_comma [OF this, of rest] w(1)
      have r: "remove_trailing_commas (c # cs) = w @ remove_trailing_commas rest" by simp
      from w(1,2) obtain w1 where w1: "w = c # w1" by (cases w) auto
      from lit w(3) [of "remove_trailing_commas rest"]
      have "lex_token (c # w1 @ remove_trailing_commas rest) =
          Some (t, remove_trailing_commas rest)"
        by (simp add: lex_token_def w1)
      moreover from lit(4) have "t \<noteq> Comma"
        by (auto simp: lex_literal_def split: if_splits)
      ultimately show ?thesis
        using tokenize_step [OF token(2) _ ih(1)] ih(2) r w1 by simp
    qed
    moreover
    have "tokenize (remove_trailing_commas s) = tokenize (remove_trailing_commas (c # cs))"
      by (subst tokenize_rtc_skip) (simp only: token(1))
    ultimately show ?thesis
      using token(5) by simp
  qed
qed

lemma trailing_commas_repaired:
  assumes "JSON_parse_tc u = Some v"
  shows "\<exists>v'. JSON_parse (remove_trailing_commas u) = Some v'"
proof -
  from assms obtain ts where ts: "tokenize u = Some ts"
    and p: "parse_value_tc (length ts) ts = Some (v, [])"
    by (auto simp: JSON_parse_tc_def split: option.splits list.splits)
  from tokenize_rtc [OF ts] obtain ts' where
    ts': "tokenize (remove_trailing_commas u) = Some ts'"
    and k: "map kind ts' = map kind (drop_tc ts)"
    by blast
  from tc_to_strict [OF p k] ts' show ?thesis
    by (auto simp: JSON_parse_def)
qed











lemma number_char_not_control: "number_char c \<Longrightarrow> \<not> is_control c"
  by (auto simp: number_char_def is_digit_def is_control_def)


fun is_num :: "token \<Rightarrow> bool" where
  "is_num (TNumber _) = True"
| "is_num _ = False"

definition num_next :: "token list \<Rightarrow> bool" where
  "num_next ts = (case ts of [] \<Rightarrow> False | t # _ \<Rightarrow> is_num t)"


fun sep :: "token list \<Rightarrow> bool" where
  "sep [] = True"
| "sep (t # ts) = (\<not> (is_num t \<and> num_next ts) \<and> sep ts)"


lemma num_next_simps [simp]: "num_next [] = False" "num_next (t # ts) = is_num t"
  by (simp_all add: num_next_def)














section \<open>Properties of \<open>safeGenerate\<close>\<close>

lemma safeGenerate_Inr:
  assumes "gen site system prompt = Inr response"
    and "JSON_parse (sanitizedJson_of (jsonString_of (case response of None \<Rightarrow> [] | Some text \<Rightarrow> text))) = Some parsed"
    and "schema parsed = Some v"
  shows "safeGenerate gen site system prompt schema = Inr v"
  using assms by (simp add: safeGenerate_def)











section \<open>Properties of \<open>processSerpResult\<close>\<close>

lemma chatty_contents:
  "trimmed_contents (map (\<lambda>content. trimPrompt (encoder chatty) (splitter chatty) content 25000)
            (compact_js (map description [\<lparr>url = Some ''u1'', description = Some ''d1''\<rparr>]))) = Inr [''d1'']"
  by code_simp

lemma chatty_parsed:
  \<open>JSON_parse (sanitizedJson_of (jsonString_of long_distiller_reply)) =
     Some (JObject [(''learnings'', JArray [JString ''l1'', JString ''l2'', JString ''l3'']),
                    (''followUpQuestions'', JArray [JString ''f1'', JString ''f2''])])\<close>
  by code_simp

lemma chatty_valid:
  "distilled_schema (JObject [(''learnings'', JArray [JString ''l1'', JString ''l2'', JString ''l3'']),
                    (''followUpQuestions'', JArray [JString ''f1'', JString ''f2''])]) =
    Some \<lparr>distilled_learnings = [''l1'', ''l2'', ''l3''], followUpQuestions = [''f1'', ''f2'']\<rparr>"
  by code_simp

lemma chatty_run:
  "processSerpResult chatty [1] ''q1'' [\<lparr>url = Some ''u1'', description = Some ''d1''\<rparr>] 1 1 =
     Inr \<lparr>distilled_learnings = [''l1'', ''l2'', ''l3''], followUpQuestions = [''f1'', ''f2'']\<rparr>"
  by code_simp

text \<open>
  Claim C10.  When the contents are trimmed, the model answers, the answer parses and the
  schema accepts it, \<open>processSerpResult\<close> returns the validated value itself, whatever
  \<open>numLearnings\<close> and \<open>numFollowUpQuestions\<close> are; and there is a run in which both
  counts are 1 and both returned lists are longer than that.
\<close>

theorem processSerpResult_ignores_counts:
  assumes "trimmed_contents (map (\<lambda>content. trimPrompt (encoder C) (splitter C) content 25000)
                    (compact_js (map description result))) = Inr contents"
    and "generateText C site (systemPrompt C) (serpResult_prompt query0 contents) = Inr response"
    and "JSON_parse (sanitizedJson_of (jsonString_of
           (case response of None \<Rightarrow> [] | Some text \<Rightarrow> text))) = Some parsed"
    and "distilled_schema parsed = Some d"
  shows "processSerpResult C site query0 result numLearnings numFollowUpQuestions = Inr d \<and>
         (\<exists>C' site' query' result' d'.
            processSerpResult C' site' query' result' 1 1 = Inr d' \<and>
            1 < length (distilled_learnings d') \<and> 1 < length (followUpQuestions d'))"
proof
  show "processSerpResult C site query0 result numLearnings numFollowUpQuestions = Inr d"
    using assms by (simp add: processSerpResult_def safeGenerate_Inr)
  show "\<exists>C' site' query' result' d'.
            processSerpResult C' site' query' result' 1 1 = Inr d' \<and>
            1 < length (distilled_learnings d') \<and> 1 < length (followUpQuestions d')"
    using chatty_run by (intro exI [where x = chatty] exI) (rule conjI, assumption, simp)
qed

lemma chatty_response:
  "generateText chatty [1] (systemPrompt chatty) (serpResult_prompt ''q1'' [''d1'']) =
     Inr (Some long_distiller_reply)"
  by (simp add: chatty_def)

theorem processSerpResult_ignores_counts_witness:
  "processSerpResult chatty [1] ''q1'' [\<lparr>url = Some ''u1'', description = Some ''d1''\<rparr>] 1 1 =
     Inr \<lparr>distilled_learnings = [''l1'', ''l2'', ''l3''], followUpQuestions = [''f1'', ''f2'']\<rparr> \<and>
   (1::nat) < length [''l1'', ''l2'', ''l3''] \<and> (1::nat) < length [''f1'', ''f2'']"
  using processSerpResult_ignores_counts
    [OF chatty_contents chatty_response, of _ _ 1 1, simplified, OF chatty_parsed chatty_valid]
  by simp

section \<open>Properties of the orchestrator\<close>

subsection \<open>Merging\<close>

lemma fold_seen_set: "set (fold (\<lambda>x seen. if x \<in> set seen then seen else seen @ [x]) xs acc) = set acc \<union> set xs"
  by (induction xs arbitrary: acc) auto

lemma fold_seen_distinct: "distinct acc \<Longrightarrow> distinct (fold (\<lambda>x seen. if x \<in> set seen then seen else seen @ [x]) xs acc)"
  by (induction xs arbitrary: acc) auto

lemma set_new_Set: "set (new_Set xs) = set xs"
  by (simp add: new_Set_def fold_seen_set)

lemma new_Set_Nil: "new_Set xs = [] \<longleftrightarrow> xs = []"
  using set_new_Set [of xs] by (metis set_empty)

lemma distinct_new_Set: "distinct (new_Set xs)"
  by (simp add: new_Set_def fold_seen_distinct)

lemma count_list_distinct: "distinct xs \<Longrightarrow> x \<in> set xs \<Longrightarrow> count_list xs x = 1"
  by (induction xs) auto

lemma deepResearch_branches:
  "deepResearch C site query0 breadth depth learnings0 visitedUrls0 =
     (case generateSerpQueries C (site @ [0]) query0 breadth (Some learnings0) of
        Inl e \<Rightarrow> Inl e
      | Inr serpQueries \<Rightarrow>
          (case Promise_all (map (branch C site breadth depth learnings0 visitedUrls0)
                               (enumerate 0 serpQueries)) of
             Inl e \<Rightarrow> Inl e
           | Inr results \<Rightarrow>
               Inr \<lparr>learnings = new_Set (concat (map learnings results)),
                    visitedUrls = new_Set (concat (map visitedUrls results))\<rparr>))"
  unfolding branch_def by (rule deepResearch.simps)

lemma Promise_all_Inr:
  "Promise_all ps = Inr rs \<longleftrightarrow> (\<forall>p \<in> set ps. \<not> isl p) \<and> rs = map projr ps"
  by (auto simp: Promise_all_def filter_empty_conv split: list.splits)

lemma Promise_all_Inl:
  "Promise_all ps = Inl e \<Longrightarrow> Inl e \<in> set ps"
proof -
  assume a: "Promise_all ps = Inl e"
  then obtain p qs where f: "filter isl ps = p # qs" and e: "e = projl p"
    by (auto simp: Promise_all_def split: list.splits)
  from f have "p \<in> set (filter isl ps)" by simp
  then have "p \<in> set ps" "isl p" by auto
  with e show ?thesis by (cases p) auto
qed

lemma carries_merge:
  assumes "\<forall>x \<in> set results. carries ls us x"
  shows "carries ls us \<lparr>learnings = new_Set (concat (map learnings results)),
                        visitedUrls = new_Set (concat (map visitedUrls results))\<rparr>"
proof (cases "\<forall>x \<in> set results. learnings x = [] \<and> visitedUrls x = []")
  case True
  then show ?thesis by (simp add: carries_def new_Set_Nil)
next
  case False
  then obtain x where x: "x \<in> set results" "\<not> (learnings x = [] \<and> visitedUrls x = [])"
    by blast
  with assms have "set ls \<subseteq> set (learnings x)" "set us \<subseteq> set (visitedUrls x)"
    by (auto simp: carries_def)
  with x(1) show ?thesis
    by (auto simp: carries_def set_new_Set)
qed

lemma deepResearch_carries:
  "deepResearch C site query0 breadth depth learnings0 visitedUrls0 = Inr r
     \<Longrightarrow> carries learnings0 visitedUrls0 r"
proof (induction C site query0 breadth depth learnings0 visitedUrls0 arbitrary: r
         rule: deepResearch.induct)
  case (1 C site query0 breadth depth learnings0 visitedUrls0)
  from "1.prems" obtain serpQueries results where
    plan: "generateSerpQueries C (site @ [0]) query0 breadth (Some learnings0) = Inr serpQueries"
    and all: "Promise_all (map (branch C site breadth depth learnings0 visitedUrls0)
                 (enumerate 0 serpQueries)) = Inr results"
    and r: "r = \<lparr>learnings = new_Set (concat (map learnings results)),
                 visitedUrls = new_Set (concat (map visitedUrls results))\<rparr>"
    by (auto simp: deepResearch_branches split: sum.splits)
  have "carries learnings0 visitedUrls0 x" if "x \<in> set results" for x
  proof -
    from that all obtain i serpQuery where
      mem: "(i, serpQuery) \<in> set (enumerate 0 serpQueries)"
      and x: "branch C site breadth depth learnings0 visitedUrls0 (i, serpQuery) = Inr x"
      by (auto simp: Promise_all_Inr)
    show ?thesis
    proof (cases "query serpQuery = []")
      case True
      with x show ?thesis by (auto simp: branch_def carries_def no_result_def)
    next
      case q: False
      show ?thesis
      proof (cases "firecrawl_search C (site @ [Suc i]) (query serpQuery)")
        case (Inl e)
        with x q show ?thesis by (auto simp: branch_def carries_def no_result_def)
      next
        case (Inr result)
        show ?thesis
        proof (cases "processSerpResult C (site @ [Suc i]) (query serpQuery) result 3
                        \<lceil>real_of_int breadth / 2\<rceil>")
          case (Inl e)
          with x q Inr show ?thesis by (auto simp: branch_def carries_def no_result_def)
        next
          case found: (Inr newLearnings)
          show ?thesis
          proof (cases "0 < depth - 1")
            case True
            with x q Inr found have
              "deepResearch C (site @ [Suc i])
                 (nextQuery_of (researchGoal serpQuery) (followUpQuestions newLearnings))
                 \<lceil>real_of_int breadth / 2\<rceil> (depth - 1)
                 (learnings0 @ distilled_learnings newLearnings)
                 (visitedUrls0 @ compact_js (map url result)) = Inr x"
              by (simp add: branch_def)
            from "1.IH" [OF plan mem refl q Inr refl refl refl found refl refl True this]
            show ?thesis by (auto simp: carries_def)
          next
            case False
            with x q Inr found show ?thesis by (auto simp: branch_def carries_def)
          qed
        qed
      qed
    qed
  qed
  with r show ?case by (simp add: carries_merge)
qed

subsection \<open>The recursive calls\<close>

lemma recursive_call_cases:
  assumes "recursive_call (C, site, query0, breadth, depth, learnings0, visitedUrls0) child"
  obtains serpQueries i and serpQuery :: SerpQuery and result :: "SearchItem list"
    and newLearnings :: Distilled where
    "generateSerpQueries C (site @ [0]) query0 breadth (Some learnings0) = Inr serpQueries"
    "(i, serpQuery) \<in> set (enumerate 0 serpQueries)"
    "query serpQuery \<noteq> []"
    "firecrawl_search C (site @ [Suc i]) (query serpQuery) = Inr result"
    "processSerpResult C (site @ [Suc i]) (query serpQuery) result 3
       \<lceil>real_of_int breadth / 2\<rceil> = Inr newLearnings"
    "0 < depth - 1"
    "child = (C, site @ [Suc i],
              nextQuery_of (researchGoal serpQuery) (followUpQuestions newLearnings),
              \<lceil>real_of_int breadth / 2\<rceil>, depth - 1,
              learnings0 @ distilled_learnings newLearnings,
              visitedUrls0 @ compact_js (map url result))"
  using assms unfolding recursive_call_def
  by (cases rule: deepResearch_rel.cases) auto

lemma recursive_call_budget:
  assumes "recursive_call parent child"
  shows "depth_of child = depth_of parent - 1 \<and>
         breadth_of child = \<lceil>real_of_int (breadth_of parent) / 2\<rceil> \<and>
         0 < depth_of child"
proof -
  obtain C site query0 breadth depth learnings0 visitedUrls0
    where p: "parent = (C, site, query0, breadth, depth, learnings0, visitedUrls0)"
    by (cases parent)
  from assms [unfolded p] show ?thesis
    by (rule recursive_call_cases) (simp add: p depth_of_def breadth_of_def)
qed

lemma recursive_call_chain:
  "(recursive_call ^^ n) parent child \<Longrightarrow> depth_of child = depth_of parent - int n"
proof (induction n arbitrary: child)
  case 0
  then show ?case by simp
next
  case (Suc n)
  then obtain mid where "(recursive_call ^^ n) parent mid" "recursive_call mid child"
    by auto
  with Suc.IH [of mid] recursive_call_budget [of mid child] show ?case
    by simp
qed

lemma recursive_call_chain_positive:
  "(recursive_call ^^ n) parent child \<Longrightarrow> 0 < n \<Longrightarrow> 0 < depth_of child"
  by (cases n) (auto dest: recursive_call_budget)

lemma recursive_call_wf: "wfP (\<lambda>child parent. recursive_call parent child)"
proof (rule wfp_if_convertible_to_nat)
  fix child parent
  assume "recursive_call parent child"
  then show "nat (depth_of child) < nat (depth_of parent)"
    by (auto dest: recursive_call_budget)
qed

subsection \<open>Concrete runs\<close>

lemma demo_planner:
  "generateSerpQueries demo ([] @ [0]) ''topic'' 1 (Some [''k'']) =
     Inr [\<lparr>query = ''q1'', researchGoal = ''g1''\<rparr>]"
  by code_simp

lemma demo_search_1:
  "firecrawl_search demo ([] @ [Suc 0]) (query \<lparr>query = ''q1'', researchGoal = ''g1''\<rparr>) =
     Inr [\<lparr>url = Some ''u1'', description = Some ''d1''\<rparr>]"
  by code_simp

lemma demo_distiller:
  "processSerpResult demo ([] @ [Suc 0]) (query \<lparr>query = ''q1'', researchGoal = ''g1''\<rparr>)
     [\<lparr>url = Some ''u1'', description = Some ''d1''\<rparr>] 3 \<lceil>real_of_int 1 / 2\<rceil> =
     Inr \<lparr>distilled_learnings = [''a'', ''b''], followUpQuestions = [''f'']\<rparr>"
  by code_simp

lemma ceiling_half: "\<lceil>real_of_int b / 2\<rceil> = (b + 1) div 2"
  using ceiling_divide_eq_div [of b 2] by simp linarith

lemma demo_recursive_call: "recursive_call demo_parent demo_child"
proof -
  let ?q = "\<lparr>query = ''q1'', researchGoal = ''g1''\<rparr>"
  let ?d = "\<lparr>distilled_learnings = [''a'', ''b''], followUpQuestions = [''f'']\<rparr>"
  let ?r = "[\<lparr>url = Some ''u1'', description = Some ''d1''\<rparr>]"
  have mem: "(0, ?q) \<in> set (enumerate 0 [?q])"
    by simp
  have "deepResearch_rel
          (demo, [] @ [Suc 0], nextQuery_of (researchGoal ?q) (followUpQuestions ?d),
           \<lceil>real_of_int 1 / 2\<rceil>, 2 - 1, [''k''] @ distilled_learnings ?d,
           [''v''] @ compact_js (map url ?r))
          (demo, [], ''topic'', 1, 2, [''k''], [''v''])"
    by (rule deepResearch_rel.intros
          [OF demo_planner mem refl _ demo_search_1 refl refl refl demo_distiller refl refl])
       simp_all
  then show ?thesis
    using ceiling_half [of 1]
    by (simp add: recursive_call_def demo_parent_def demo_child_def compact_js_def)
qed

lemma twins_run:
  "deepResearch twins [] ''topic'' 2 1 [] [] =
     Inr \<lparr>learnings = [''a'', ''b''], visitedUrls = [''u1'']\<rparr>"
  by code_simp

lemma twins_planner:
  "generateSerpQueries twins ([] @ [0]) ''topic'' 2 (Some []) =
     Inr [\<lparr>query = ''q1'', researchGoal = ''g1''\<rparr>, \<lparr>query = ''q2'', researchGoal = ''g2''\<rparr>]"
  by code_simp

lemma twins_branches:
  "map (branch twins [] 2 1 [] [])
     (enumerate 0 [\<lparr>query = ''q1'', researchGoal = ''g1''\<rparr>, \<lparr>query = ''q2'', researchGoal = ''g2''\<rparr>]) =
   [Inr \<lparr>learnings = [''a'', ''b''], visitedUrls = [''u1'']\<rparr>,
    Inr \<lparr>learnings = [''a'', ''b''], visitedUrls = [''u1'']\<rparr>]"
  unfolding branch_def by code_simp

lemma demo_run:
  "deepResearch demo [] ''topic'' 1 2 [''k''] [''v''] =
     Inr \<lparr>learnings = [''k'', ''a'', ''b''], visitedUrls = [''v'', ''u1'']\<rparr>"
  by code_simp

lemma branch_fails_only_nested:
  assumes "branch C site breadth depth learnings0 visitedUrls0 (i, serpQuery) = Inl e"
  shows "\<exists>nextQuery allLearnings allUrls.
           0 < depth - 1 \<and>
           deepResearch C (site @ [Suc i]) nextQuery \<lceil>real_of_int breadth / 2\<rceil> (depth - 1)
             allLearnings allUrls = Inl e"
  using assms
  by (auto simp: branch_def Let_def split: if_splits sum.splits)

lemma deepResearch_last_level_isolated:
  assumes "depth \<le> 1"
    and "generateSerpQueries C (site @ [0]) query0 breadth (Some learnings0) = Inr serpQueries"
  shows "\<exists>r. deepResearch C site query0 breadth depth learnings0 visitedUrls0 = Inr r"
proof -
  have "\<not> isl p"
    if "p \<in> set (map (branch C site breadth depth learnings0 visitedUrls0)
                    (enumerate 0 serpQueries))" for p
  proof
    assume "isl p"
    then obtain e where "p = Inl e" by (cases p) auto
    with that obtain i serpQuery where
      "branch C site breadth depth learnings0 visitedUrls0 (i, serpQuery) = Inl e"
      by auto
    from branch_fails_only_nested [OF this] assms(1) show False by auto
  qed
  then obtain results where
    "Promise_all (map (branch C site breadth depth learnings0 visitedUrls0)
       (enumerate 0 serpQueries)) = Inr results"
    by (auto simp: Promise_all_Inr)
  with assms(2) show ?thesis
    by (simp add: deepResearch_branches)
qed

subsection \<open>Budget and termination\<close>

text \<open>
  Claim C1.  Every recursive call that an invocation of \<open>deepResearch\<close> makes has
  the depth \<open>depth - 1\<close> and the breadth \<open>\<lceil>breadth / 2\<rceil>\<close>, and it is made only when
  \<open>depth - 1\<close> is positive.  So \<open>n\<close> calls nested below an invocation have
  \<open>n\<close> below its depth, and no chain of nested calls is infinite: with the
  termination proof of the definition, every invocation returns.
\<close>

theorem deepResearch_budget_decreases:
  "(\<forall>parent child. recursive_call parent child \<longrightarrow>
       depth_of child = depth_of parent - 1 \<and>
       breadth_of child = \<lceil>real_of_int (breadth_of parent) / 2\<rceil> \<and>
       0 < depth_of child) \<and>
   (\<forall>n parent child. (recursive_call ^^ n) parent child \<longrightarrow> 0 < n \<longrightarrow>
       int n < depth_of parent) \<and>
   wfP (\<lambda>child parent. recursive_call parent child)"
proof (intro conjI allI impI)
  fix n parent child
  assume "(recursive_call ^^ n) parent child" "0 < n"
  with recursive_call_chain [of n parent child] recursive_call_chain_positive [of n parent child]
  show "int n < depth_of parent" by simp
qed (auto dest: recursive_call_budget intro: recursive_call_wf)

theorem deepResearch_budget_decreases_witness:
  "recursive_call demo_parent demo_child \<and>
   depth_of demo_child = depth_of demo_parent - 1 \<and>
   breadth_of demo_child = \<lceil>real_of_int (breadth_of demo_parent) / 2\<rceil> \<and>
   0 < depth_of demo_child \<and>
   (recursive_call ^^ 1) demo_parent demo_child \<and> (0::nat) < 1 \<and>
   int 1 < depth_of demo_parent"
  using deepResearch_budget_decreases demo_recursive_call ceiling_half [of 1]
  by (simp add: demo_parent_def demo_child_def depth_of_def breadth_of_def OO_def)

subsection \<open>De-duplication\<close>

text \<open>
  Claim C7.  The lists that an invocation returns hold no string twice, and a string
  that a branch reports, be it by one branch or by several, is in the returned list
  exactly once.
\<close>

theorem deepResearch_merges_once:
  assumes "deepResearch C site query0 breadth depth learnings0 visitedUrls0 = Inr r"
  shows "distinct (learnings r) \<and> distinct (visitedUrls r) \<and>
         (\<exists>serpQueries results.
            generateSerpQueries C (site @ [0]) query0 breadth (Some learnings0) = Inr serpQueries \<and>
            Promise_all (map (branch C site breadth depth learnings0 visitedUrls0)
                           (enumerate 0 serpQueries)) = Inr results \<and>
            (\<forall>x \<in> set results.
               (\<forall>s \<in> set (learnings x). count_list (learnings r) s = 1) \<and>
               (\<forall>u \<in> set (visitedUrls x). count_list (visitedUrls r) u = 1)))"
proof -
  from assms obtain serpQueries results where
    plan: "generateSerpQueries C (site @ [0]) query0 breadth (Some learnings0) = Inr serpQueries"
    and all: "Promise_all (map (branch C site breadth depth learnings0 visitedUrls0)
                 (enumerate 0 serpQueries)) = Inr results"
    and r: "r = \<lparr>learnings = new_Set (concat (map learnings results)),
                 visitedUrls = new_Set (concat (map visitedUrls results))\<rparr>"
    by (auto simp: deepResearch_branches split: sum.splits)
  have d: "distinct (learnings r)" "distinct (visitedUrls r)"
    by (simp_all add: r distinct_new_Set)
  have "count_list (learnings r) s = 1" if "x \<in> set results" "s \<in> set (learnings x)" for x s
    using that by (intro count_list_distinct d) (auto simp: r set_new_Set)
  moreover
  have "count_list (visitedUrls r) u = 1" if "x \<in> set results" "u \<in> set (visitedUrls x)" for x u
    using that by (intro count_list_distinct d) (auto simp: r set_new_Set)
  ultimately show ?thesis
    using plan all d by blast
qed

theorem deepResearch_merges_once_witness:
  "deepResearch twins [] ''topic'' 2 1 [] [] =
     Inr \<lparr>learnings = [''a'', ''b''], visitedUrls = [''u1'']\<rparr> \<and>
   map (branch twins [] 2 1 [] [])
     (enumerate 0 [\<lparr>query = ''q1'', researchGoal = ''g1''\<rparr>, \<lparr>query = ''q2'', researchGoal = ''g2''\<rparr>]) =
   [Inr \<lparr>learnings = [''a'', ''b''], visitedUrls = [''u1'']\<rparr>,
    Inr \<lparr>learnings = [''a'', ''b''], visitedUrls = [''u1'']\<rparr>] \<and>
   distinct (learnings \<lparr>learnings = [''a'', ''b''], visitedUrls = [''u1'']\<rparr>) \<and>
   distinct (visitedUrls \<lparr>learnings = [''a'', ''b''], visitedUrls = [''u1'']\<rparr>) \<and>
   count_list (learnings \<lparr>learnings = [''a'', ''b''], visitedUrls = [''u1'']\<rparr>) ''a'' = 1 \<and>
   count_list (visitedUrls \<lparr>learnings = [''a'', ''b''], visitedUrls = [''u1'']\<rparr>) ''u1'' = 1"
  using deepResearch_merges_once [OF twins_run] twins_run twins_branches
  by simp

subsection \<open>The accumulator\<close>

text \<open>
  Claim C6 says that the returned lists include the input accumulator.  They do not when
  no branch contributes: here the only search fails, the branch gives the empty result,
  and the learning and the URL that the invocation was given are not returned.
\<close>

theorem deepResearch_accumulator_dropped:
  "deepResearch offline [] ''topic'' 1 1 [''known fact''] [''http://seen''] = Inr no_result \<and>
   ''known fact'' \<notin> set (learnings no_result) \<and>
   ''http://seen'' \<notin> set (visitedUrls no_result)"
  by code_simp

text \<open>
  Claim C6, amended.  A recursive call receives the accumulator of its parent followed
  by the learnings and the URLs that its branch found.  The strings that an invocation
  returns are those of the results of its branches.  A branch that fails, or whose query
  is empty, gives the empty result; so what an invocation returns is either empty or
  includes the accumulator it was given.
\<close>

theorem deepResearch_accumulator:
  "(\<forall>child. recursive_call (C, site, query0, breadth, depth, learnings0, visitedUrls0) child \<longrightarrow>
      (\<exists>i (serpQuery :: SerpQuery) (result :: SearchItem list) (newLearnings :: Distilled).
          firecrawl_search C (site @ [Suc i]) (query serpQuery) = Inr result \<and>
          processSerpResult C (site @ [Suc i]) (query serpQuery) result 3
            \<lceil>real_of_int breadth / 2\<rceil> = Inr newLearnings \<and>
          learnings_of child = learnings0 @ distilled_learnings newLearnings \<and>
          visitedUrls_of child = visitedUrls0 @ compact_js (map url result))) \<and>
   (\<forall>r. deepResearch C site query0 breadth depth learnings0 visitedUrls0 = Inr r \<longrightarrow>
      (\<exists>serpQueries results.
          generateSerpQueries C (site @ [0]) query0 breadth (Some learnings0) = Inr serpQueries \<and>
          Promise_all (map (branch C site breadth depth learnings0 visitedUrls0)
                         (enumerate 0 serpQueries)) = Inr results \<and>
          set (learnings r) = (\<Union>x \<in> set results. set (learnings x)) \<and>
          set (visitedUrls r) = (\<Union>x \<in> set results. set (visitedUrls x))) \<and>
      ((learnings r = [] \<and> visitedUrls r = []) \<or>
       (set learnings0 \<subseteq> set (learnings r) \<and> set visitedUrls0 \<subseteq> set (visitedUrls r))))"
proof (intro conjI allI impI)
  fix child
  assume "recursive_call (C, site, query0, breadth, depth, learnings0, visitedUrls0) child"
  then obtain i and serpQuery :: SerpQuery and result :: "SearchItem list"
    and newLearnings :: Distilled where
    s: "firecrawl_search C (site @ [Suc i]) (query serpQuery) = Inr result"
    and p: "processSerpResult C (site @ [Suc i]) (query serpQuery) result 3
              \<lceil>real_of_int breadth / 2\<rceil> = Inr newLearnings"
    and c: "child = (C, site @ [Suc i],
                    nextQuery_of (researchGoal serpQuery) (followUpQuestions newLearnings),
                    \<lceil>real_of_int breadth / 2\<rceil>, depth - 1,
                    learnings0 @ distilled_learnings newLearnings,
                    visitedUrls0 @ compact_js (map url result))"
    by (rule recursive_call_cases)
  have "learnings_of child = learnings0 @ distilled_learnings newLearnings"
    and "visitedUrls_of child = visitedUrls0 @ compact_js (map url result)"
    by (simp_all add: c learnings_of_def visitedUrls_of_def)
  with s p
  show "\<exists>i (serpQuery :: SerpQuery) (result :: SearchItem list) (newLearnings :: Distilled).
          firecrawl_search C (site @ [Suc i]) (query serpQuery) = Inr result \<and>
          processSerpResult C (site @ [Suc i]) (query serpQuery) result 3
            \<lceil>real_of_int breadth / 2\<rceil> = Inr newLearnings \<and>
          learnings_of child = learnings0 @ distilled_learnings newLearnings \<and>
          visitedUrls_of child = visitedUrls0 @ compact_js (map url result)"
    by blast
next
  fix r
  assume run: "deepResearch C site query0 breadth depth learnings0 visitedUrls0 = Inr r"
  then obtain serpQueries results where
    plan: "generateSerpQueries C (site @ [0]) query0 breadth (Some learnings0) = Inr serpQueries"
    and all: "Promise_all (map (branch C site breadth depth learnings0 visitedUrls0)
                 (enumerate 0 serpQueries)) = Inr results"
    and r: "r = \<lparr>learnings = new_Set (concat (map learnings results)),
                 visitedUrls = new_Set (concat (map visitedUrls results))\<rparr>"
    by (auto simp: deepResearch_branches split: sum.splits)
  have "set (learnings r) = (\<Union>x \<in> set results. set (learnings x))"
    and "set (visitedUrls r) = (\<Union>x \<in> set results. set (visitedUrls x))"
    by (simp_all add: r set_new_Set)
  with plan all
  show "\<exists>serpQueries results.
          generateSerpQueries C (site @ [0]) query0 breadth (Some learnings0) = Inr serpQueries \<and>
          Promise_all (map (branch C site breadth depth learnings0 visitedUrls0)
                         (enumerate 0 serpQueries)) = Inr results \<and>
          set (learnings r) = (\<Union>x \<in> set results. set (learnings x)) \<and>
          set (visitedUrls r) = (\<Union>x \<in> set results. set (visitedUrls x))"
    by blast
  from deepResearch_carries [OF run]
  show "(learnings r = [] \<and> visitedUrls r = []) \<or>
        (set learnings0 \<subseteq> set (learnings r) \<and> set visitedUrls0 \<subseteq> set (visitedUrls r))"
    by (simp add: carries_def)
qed

theorem deepResearch_accumulator_witness:
  "recursive_call (demo, [], ''topic'', 1, 2, [''k''], [''v'']) demo_child \<and>
   learnings_of demo_child = [''k''] @ [''a'', ''b''] \<and>
   visitedUrls_of demo_child = [''v''] @ [''u1''] \<and>
   deepResearch demo [] ''topic'' 1 2 [''k''] [''v''] =
     Inr \<lparr>learnings = [''k'', ''a'', ''b''], visitedUrls = [''v'', ''u1'']\<rparr> \<and>
   set [''k''] \<subseteq> set (learnings \<lparr>learnings = [''k'', ''a'', ''b''], visitedUrls = [''v'', ''u1'']\<rparr>) \<and>
   set [''v''] \<subseteq> set (visitedUrls \<lparr>learnings = [''k'', ''a'', ''b''], visitedUrls = [''v'', ''u1'']\<rparr>)"
  using deepResearch_accumulator [of demo "[]" "''topic''" 1 2 "[''k'']" "[''v'']"]
    demo_recursive_call demo_run
  by (simp add: demo_parent_def demo_child_def learnings_of_def visitedUrls_of_def)

subsection \<open>Failures in a branch\<close>

text \<open>
  Claim C4 at depth 2.  The planner answers with two queries; in the invocation that the
  first branch starts, the planner's answer holds no JSON.  The rejection of that
  invocation is the rejection of the branch, then of \<open>Promise.all\<close> and of the whole
  run: the second branch contributes nothing.
\<close>

theorem deepResearch_nested_failure_escapes:
  "deepResearch flaky [] ''topic'' 2 2 [] [] =
     Inl (Error ''invalid json from model: I cannot help with that'')"
  by code_simp

section \<open>The round trip through \<open>safeGenerate\<close>\<close>

text \<open>
  The serialization of a plain value goes through both replacements unchanged, is found
  whole between the fences, and is read back by the lexer and the parser token by token.
\<close>

lemma number_literal:
  assumes "lex_number x = Some (x, [])"
  shows "x \<noteq> []" and "\<forall>c \<in> set x. number_char c"
    and "CHR '','' \<notin> set x" and "\<forall>c \<in> set x. \<not> is_control c"
proof -
  from lex_number_again [OF assms, of "[]"] show "x \<noteq> []"
    by (simp add: same_next_def)
  from lex_number_chars [OF assms] show c: "\<forall>c \<in> set x. number_char c" .
  from c show "CHR '','' \<notin> set x"
    using number_char_not_comma by blast
  from c show "\<forall>c \<in> set x. \<not> is_control c"
    using number_char_not_control by blast
qed

lemma number_char_plain: "number_char c \<Longrightarrow> \<not> is_space c \<and> c \<noteq> CHR 0x60 \<and> c \<noteq> CHR ''}'' \<and> c \<noteq> CHR '']''"
  by (auto simp: number_char_def is_digit_def is_space_def)

subsection \<open>Control characters\<close>

lemma rcc_stringify:
  "plain v \<Longrightarrow> remove_control_chars (stringify v) = stringify v"
  "plain_elements vs \<Longrightarrow> remove_control_chars (stringify_elements vs) = stringify_elements vs"
  "plain_members kvs \<Longrightarrow> remove_control_chars (stringify_members kvs) = stringify_members kvs"
proof (induction v and vs and kvs rule: stringify_stringify_elements_stringify_members.induct)
  case (3 x)
  then show ?case
    using number_literal(4) [of x] by (simp add: remove_control_chars_def)
next
  case (4 s)
  then show ?case by (simp add: plain_string_def)
next
  case (10 k v kvs)
  then show ?case
    by (simp add: plain_string_def remove_control_chars_def is_control_def)
qed (simp_all add: remove_control_chars_def is_control_def)

subsection \<open>Trailing commas\<close>

lemma before_closer_cut:
  assumes "\<not> is_space q"
  shows "before_closer (t @ q # r) = before_closer (t @ [q])"
  using assms by (induction t) (simp_all add: before_closer_Cons)

lemma rtc_cut:
  assumes "\<not> is_space q" "q \<noteq> CHR '',''"
  shows "remove_trailing_commas (a @ q # r) =
           remove_trailing_commas (a @ [q]) @ remove_trailing_commas r"
  using assms by (induction a) (simp_all add: before_closer_cut [of q _ r])

lemma rtc_quote:
  assumes "remove_trailing_commas (quote s) = quote s"
  shows "remove_trailing_commas (quote s @ r) = quote s @ remove_trailing_commas r"
proof -
  have q: \<open>quote s = (CHR ''"'' # concat (map escape_char s)) @ [CHR ''"'']\<close>
    by (simp add: quote_def)
  have \<open>remove_trailing_commas (quote s @ r) =
          remove_trailing_commas ((CHR ''"'' # concat (map escape_char s)) @ CHR ''"'' # r)\<close>
    by (simp add: quote_def)
  also have \<open>\<dots> = remove_trailing_commas ((CHR ''"'' # concat (map escape_char s)) @ [CHR ''"''])
                  @ remove_trailing_commas r\<close>
    by (rule rtc_cut) (simp_all add: is_space_def)
  finally show ?thesis
    using assms by (simp only: q [symmetric])
qed

definition value_start :: "string \<Rightarrow> bool" where
  "value_start s \<longleftrightarrow>
     (case s of [] \<Rightarrow> False
      | c # _ \<Rightarrow> \<not> is_space c \<and> c \<noteq> CHR ''}'' \<and> c \<noteq> CHR '']'')"

lemma value_start_append: "value_start a \<Longrightarrow> value_start (a @ r)"
  by (cases a) (simp_all add: value_start_def)

lemma value_start_not_closer: "value_start s \<Longrightarrow> \<not> before_closer s"
  by (cases s) (simp_all add: value_start_def before_closer_Cons)

lemma quote_start: "value_start (quote s @ r)"
  by (simp add: quote_def value_start_def is_space_def)

lemma stringify_start:
  "plain v \<Longrightarrow> value_start (stringify v)"
proof (cases v)
  case (JNumber x)
  assume "plain v"
  with JNumber have "lex_number x = Some (x, [])" by simp
  from number_literal(1,2) [OF this] show ?thesis
    using JNumber number_char_plain by (cases x) (auto simp: value_start_def)
next
  case (JString s)
  then show ?thesis using quote_start [of s "[]"] by simp
qed (simp_all add: value_start_def is_space_def)

lemma stringify_elements_start:
  "plain_elements vs \<Longrightarrow> vs \<noteq> [] \<Longrightarrow> value_start (stringify_elements vs @ r)"
  by (cases vs) (simp_all add: value_start_append stringify_start)

lemma stringify_members_start:
  "kvs \<noteq> [] \<Longrightarrow> value_start (stringify_members kvs @ r)"
proof (cases kvs)
  case (Cons kv kvs')
  then show ?thesis
    using quote_start by (cases kv) simp
qed simp

lemma rtc_stringify:
  "plain v \<Longrightarrow> remove_trailing_commas (stringify v @ r) = stringify v @ remove_trailing_commas r"
  "plain_elements vs \<Longrightarrow>
     remove_trailing_commas (stringify_elements vs @ r) =
       stringify_elements vs @ remove_trailing_commas r"
  "plain_members kvs \<Longrightarrow>
     remove_trailing_commas (stringify_members kvs @ r) =
       stringify_members kvs @ remove_trailing_commas r"
proof (induction v and vs and kvs arbitrary: r and r and r
    rule: stringify_stringify_elements_stringify_members.induct)
  case (3 x)
  then show ?case
    using number_literal(3) [of x] by (simp add: rtc_no_comma)
next
  case (4 s)
  then show ?case by (simp add: plain_string_def rtc_quote)
next
  case (8 v vs)
  show ?case
  proof (cases "vs = []")
    case True
    with 8 show ?thesis by simp
  next
    case False
    from 8 False have "\<not> before_closer (stringify_elements vs @ r)"
      by (simp add: stringify_elements_start value_start_not_closer)
    with 8 False show ?thesis by simp
  qed
next
  case (10 k v kvs)
  show ?case
  proof (cases "kvs = []")
    case True
    with 10 show ?thesis by (simp add: plain_string_def rtc_quote)
  next
    case False
    then have "\<not> before_closer (stringify_members kvs @ r)"
      by (simp add: stringify_members_start value_start_not_closer)
    with 10 False show ?thesis by (simp add: plain_string_def rtc_quote)
  qed
qed simp_all

subsection \<open>Backquotes\<close>

lemma closes_fence_iff: "closes_fence s \<longleftrightarrow> take 3 s = [CHR 0x60, CHR 0x60, CHR 0x60]"
  by (cases s rule: closes_fence.cases) auto

lemma closes_fence_hd: "closes_fence (c # r) \<Longrightarrow> c = CHR 0x60"
  by (simp add: closes_fence_iff)

lemma closes_fence_cut:
  assumes "q \<noteq> CHR 0x60"
  shows "closes_fence (a @ q # r) = closes_fence (a @ [q])"
proof (cases a)
  case Nil
  with assms show ?thesis by (simp add: closes_fence_iff)
next
  case (Cons c a')
  show ?thesis
  proof (cases a')
    case Nil
    with Cons assms show ?thesis by (simp add: closes_fence_iff)
  next
    case (Cons d a'')
    with \<open>a = c # a'\<close> assms show ?thesis by (cases a'') (simp_all add: closes_fence_iff)
  qed
qed

lemma bfc_char:
  "c \<noteq> CHR 0x60 \<Longrightarrow>
     before_fence_close (c # r) = map_option ((#) c) (before_fence_close r)"
  using closes_fence_hd [of c r] by auto

lemma bfc_cut:
  assumes "q \<noteq> CHR 0x60" "before_fence_close (a @ [q]) = None"
  shows "before_fence_close (a @ q # r) = map_option ((@) (a @ [q])) (before_fence_close r)"
  using assms
proof (induction a)
  case Nil
  then show ?case
    by (simp add: bfc_char del: before_fence_close.simps(2))
next
  case (Cons c a)
  from Cons.prems have nc: "\<not> closes_fence ((c # a) @ [q])"
    by (auto split: if_splits)
  with closes_fence_cut [OF Cons.prems(1), of "c # a" r]
  have "\<not> closes_fence ((c # a) @ q # r)" by simp
  moreover from Cons.prems nc have "before_fence_close (a @ [q]) = None"
    by (simp split: if_splits)
  ultimately show ?case
    using Cons.IH Cons.prems(1) by (simp add: option.map_comp comp_def)
qed

lemma bfc_no_backquote:
  assumes "CHR 0x60 \<notin> set a"
  shows "before_fence_close (a @ r) = map_option ((@) a) (before_fence_close r)"
  using assms
proof (induction a)
  case Nil
  then show ?case by (simp add: option.map_ident)
next
  case (Cons c a)
  then have "c \<noteq> CHR 0x60" by auto
  with Cons bfc_char [of c "a @ r"] show ?case
    by (simp add: option.map_comp comp_def del: before_fence_close.simps(2))
qed

lemma bfc_quote:
  assumes "before_fence_close (quote s) = None"
  shows "before_fence_close (quote s @ r) = map_option ((@) (quote s)) (before_fence_close r)"
  using bfc_cut [of \<open>CHR ''"''\<close> \<open>CHR ''"'' # concat (map escape_char s)\<close> r] assms
  by (simp add: quote_def)

lemma bfc_stringify:
  "plain v \<Longrightarrow>
     before_fence_close (stringify v @ r) = map_option ((@) (stringify v)) (before_fence_close r)"
  "plain_elements vs \<Longrightarrow>
     before_fence_close (stringify_elements vs @ r) =
       map_option ((@) (stringify_elements vs)) (before_fence_close r)"
  "plain_members kvs \<Longrightarrow>
     before_fence_close (stringify_members kvs @ r) =
       map_option ((@) (stringify_members kvs)) (before_fence_close r)"
proof (induction v and vs and kvs arbitrary: r and r and r
    rule: stringify_stringify_elements_stringify_members.induct)
  case 1
  have "CHR 0x60 \<notin> set (stringify JNull)" by simp
  then show ?case by (rule bfc_no_backquote)
next
  case (2 b)
  have "CHR 0x60 \<notin> set (stringify (JBool b))" by simp
  then show ?case by (rule bfc_no_backquote)
next
  case (3 x)
  then have "CHR 0x60 \<notin> set (stringify (JNumber x))"
    using number_literal(2) [of x] number_char_plain by auto
  then show ?case by (rule bfc_no_backquote)
next
  case (4 s)
  then show ?case by (simp add: plain_string_def bfc_quote)
next
  case (5 vs)
  then show ?case
    by (simp add: bfc_char option.map_comp comp_def del: before_fence_close.simps(2))
next
  case (6 kvs)
  then show ?case
    by (simp add: bfc_char option.map_comp comp_def del: before_fence_close.simps(2))
next
  case 7
  show ?case by (simp add: option.map_ident)
next
  case (8 v vs)
  then show ?case
    by (cases "vs = []") (simp_all add: bfc_char option.map_comp comp_def del: before_fence_close.simps(2))
next
  case 9
  show ?case by (simp add: option.map_ident)
next
  case (10 k v kvs)
  from 10 have k: "before_fence_close (quote k @ x) =
      map_option ((@) (quote k)) (before_fence_close x)" for x
    by (simp add: plain_string_def bfc_quote)
  from 10 show ?case
    by (cases "kvs = []") (simp_all add: k bfc_char option.map_comp comp_def del: before_fence_close.simps(2))
qed

subsection \<open>The tokens of the serialization\<close>

lemma hex_digit_value: "n < 16 \<Longrightarrow> hex_value (hex_digit n) = Some n"
  by (simp add: hex_digit_def hex_value_def Let_def)

lemma hex4_escape:
  assumes "n < 32"
  shows "hex4 (CHR ''0'') (CHR ''0'') (hex_digit (n div 16)) (hex_digit (n mod 16)) = Some (char_of n)"
proof -
  have "hex_value (CHR ''0'') = Some 0"
    by (simp add: hex_value_def)
  moreover from assms have "hex_value (hex_digit (n div 16)) = Some (n div 16)"
    by (intro hex_digit_value) simp
  moreover have "hex_value (hex_digit (n mod 16)) = Some (n mod 16)"
    by (intro hex_digit_value) simp
  ultimately show ?thesis
    using assms by (simp add: hex4_def)
qed

lemma lex_string_escape:
  "lex_string (escape_char c @ rest) = map_option (apfst ((#) c)) (lex_string rest)"
proof (cases "(of_char c :: nat) < 32")
  case True
  from hex4_escape [OF True] show ?thesis
    by (simp add: escape_char_def unescape_def)
next
  case False
  then show ?thesis
    by (simp add: escape_char_def unescape_def)
qed

lemma lex_string_quote:
  \<open>lex_string (concat (map escape_char s) @ CHR ''"'' # r) = Some (s, r)\<close>
  by (induction s) (simp_all add: lex_string_escape)

lemma tokenize_token:
  assumes "\<not> is_json_ws c" "lex_token (c # y) = Some (t, rest)"
  shows "tokenize (c # y) = map_option ((#) t) (tokenize rest)"
  using assms by (subst tokenize.simps) simp

lemma tok_punct:
  assumes "punctuator c = Some t"
  shows "tokenize (c # r) = map_option ((#) t) (tokenize r)"
proof (rule tokenize_token)
  from punctuator_cases [OF assms] show "\<not> is_json_ws c"
    by (auto simp: is_json_ws_def)
  from assms show "lex_token (c # r) = Some (t, r)"
    by (simp add: lex_token_def)
qed

lemma tok_quote: "tokenize (quote s @ r) = map_option ((#) (TString s)) (tokenize r)"
proof -
  have \<open>tokenize (CHR ''"'' # concat (map escape_char s) @ CHR ''"'' # r) =
          map_option ((#) (TString s)) (tokenize r)\<close>
    by (rule tokenize_token)
       (simp_all add: is_json_ws_def lex_token_def punctuator_def lex_string_quote)
  then show ?thesis by (simp add: quote_def)
qed

lemma tok_null: "tokenize (''null'' @ r) = map_option ((#) TNull) (tokenize r)"
proof -
  have "tokenize (CHR ''n'' # ''ull'' @ r) = map_option ((#) TNull) (tokenize r)"
    by (rule tokenize_token)
       (simp_all add: is_json_ws_def lex_token_def punctuator_def lex_literal_def is_digit_def)
  then show ?thesis by simp
qed

lemma tok_true: "tokenize (''true'' @ r) = map_option ((#) TTrue) (tokenize r)"
proof -
  have "tokenize (CHR ''t'' # ''rue'' @ r) = map_option ((#) TTrue) (tokenize r)"
    by (rule tokenize_token)
       (simp_all add: is_json_ws_def lex_token_def punctuator_def lex_literal_def is_digit_def)
  then show ?thesis by simp
qed

lemma tok_false: "tokenize (''false'' @ r) = map_option ((#) TFalse) (tokenize r)"
proof -
  have "tokenize (CHR ''f'' # ''alse'' @ r) = map_option ((#) TFalse) (tokenize r)"
    by (rule tokenize_token)
       (simp_all add: is_json_ws_def lex_token_def punctuator_def lex_literal_def is_digit_def)
  then show ?thesis by simp
qed

lemma number_literal_start:
  assumes "lex_number x = Some (x, [])"
  obtains c cs where "x = c # cs" "c = CHR ''-'' \<or> is_digit c"
proof -
  from number_literal(1) [OF assms] obtain c cs where x: "x = c # cs"
    by (cases x) auto
  obtain neg s1 where m: "lex_minus x = (neg, s1)" by (cases "lex_minus x")
  with assms obtain ip s2 where i: "lex_int s1 = Some (ip, s2)"
    by (auto simp: lex_number_def split: option.splits)
  have "c = CHR ''-'' \<or> is_digit c"
  proof (cases "c = CHR ''-''")
    case False
    with m x have "s1 = c # cs" by (simp add: lex_minus_def)
    with i show ?thesis
      by (auto simp: lex_int_def is_digit_def split: if_splits)
  qed simp
  with x that show ?thesis by blast
qed

lemma tok_number:
  assumes "lex_number x = Some (x, [])" "same_next [] r"
  shows "tokenize (x @ r) = map_option ((#) (TNumber x)) (tokenize r)"
proof -
  from assms(1) obtain c cs where x: "x = c # cs" and c: "c = CHR ''-'' \<or> is_digit c"
    by (rule number_literal_start)
  from lex_number_again [OF assms] have n: "lex_number (x @ r) = Some (x, r)"
    by simp
  have "tokenize (c # cs @ r) = map_option ((#) (TNumber x)) (tokenize r)"
  proof (rule tokenize_token)
    from c show "\<not> is_json_ws c"
      by (auto simp: is_json_ws_def is_digit_def)
    from c have "punctuator c = None" \<open>c \<noteq> CHR ''"''\<close>
      by (auto simp: punctuator_def is_digit_def)
    with c n x show "lex_token (c # cs @ r) = Some (TNumber x, r)"
      by (simp add: lex_token_def)
  qed
  with x show ?thesis by simp
qed

lemma same_next_closer:
  "same_next [] (CHR '']'' # r)" "same_next [] (CHR ''}'' # r)" "same_next [] (CHR '','' # r)"
  "same_next [] []"
  by (simp_all add: same_next_def next_digit_def next_dot_def next_exp_def is_digit_def)

lemma tokenize_stringify:
  "plain v \<Longrightarrow> same_next [] r \<Longrightarrow>
     tokenize (stringify v @ r) = map_option ((@) (tokens_of v)) (tokenize r)"
  "plain_elements vs \<Longrightarrow> same_next [] r \<Longrightarrow>
     tokenize (stringify_elements vs @ r) = map_option ((@) (tokens_of_elements vs)) (tokenize r)"
  "plain_members kvs \<Longrightarrow> same_next [] r \<Longrightarrow>
     tokenize (stringify_members kvs @ r) = map_option ((@) (tokens_of_members kvs)) (tokenize r)"
proof (induction v and vs and kvs arbitrary: r and r and r
    rule: stringify_stringify_elements_stringify_members.induct)
  case 1
  show ?case using tok_null [of r] by (simp add: comp_def)
next
  case (2 b)
  show ?case using tok_true [of r] tok_false [of r] by (simp add: comp_def)
next
  case (3 x)
  then show ?case using tok_number [of x r] by (simp add: comp_def)
next
  case (4 s)
  show ?case using tok_quote [of s r] by (simp add: comp_def)
next
  case (5 vs)
  have "tokenize (stringify (JArray vs) @ r) =
          map_option ((#) LBracket) (tokenize (stringify_elements vs @ CHR '']'' # r))"
    by (simp add: tok_punct punctuator_def)
  also have "tokenize (stringify_elements vs @ CHR '']'' # r) =
          map_option ((@) (tokens_of_elements vs)) (tokenize (CHR '']'' # r))"
    using 5 by (simp add: same_next_closer)
  also have "tokenize (CHR '']'' # r) = map_option ((#) RBracket) (tokenize r)"
    by (simp add: tok_punct punctuator_def)
  finally show ?case
    by (simp add: option.map_comp comp_def)
next
  case (6 kvs)
  have "tokenize (stringify (JObject kvs) @ r) =
          map_option ((#) LBrace) (tokenize (stringify_members kvs @ CHR ''}'' # r))"
    by (simp add: tok_punct punctuator_def)
  also have "tokenize (stringify_members kvs @ CHR ''}'' # r) =
          map_option ((@) (tokens_of_members kvs)) (tokenize (CHR ''}'' # r))"
    using 6 by (simp add: same_next_closer)
  also have "tokenize (CHR ''}'' # r) = map_option ((#) RBrace) (tokenize r)"
    by (simp add: tok_punct punctuator_def)
  finally show ?case
    by (simp add: option.map_comp comp_def)
next
  case 7
  show ?case by (simp add: option.map_ident)
next
  case (8 v vs)
  show ?case
  proof (cases "vs = []")
    case True
    with 8 show ?thesis by simp
  next
    case False
    have "tokenize (stringify_elements (v # vs) @ r) =
            tokenize (stringify v @ CHR '','' # stringify_elements vs @ r)"
      using False by simp
    also have "\<dots> = map_option ((@) (tokens_of v)) (tokenize (CHR '','' # stringify_elements vs @ r))"
      using 8 by (simp add: same_next_closer)
    also have "tokenize (CHR '','' # stringify_elements vs @ r) =
            map_option ((#) Comma) (tokenize (stringify_elements vs @ r))"
      by (simp add: tok_punct punctuator_def)
    also have "tokenize (stringify_elements vs @ r) =
            map_option ((@) (tokens_of_elements vs)) (tokenize r)"
      using 8 False by simp
    finally show ?thesis
      using False by (simp add: option.map_comp comp_def)
  qed
next
  case 9
  show ?case by (simp add: option.map_ident)
next
  case (10 k v kvs)
  have a: "tokenize (stringify_members ((k, v) # kvs) @ r) =
          map_option ((#) (TString k)) (map_option ((#) Colon)
            (tokenize (stringify v @ (if kvs = [] then [] else CHR '','' # stringify_members kvs) @ r)))"
    by (simp add: tok_quote tok_punct punctuator_def)
  show ?case
  proof (cases "kvs = []")
    case True
    with 10 a show ?thesis by (simp add: option.map_comp comp_def)
  next
    case False
    have "tokenize (stringify v @ CHR '','' # stringify_members kvs @ r) =
            map_option ((@) (tokens_of v)) (tokenize (CHR '','' # stringify_members kvs @ r))"
      using 10 by (simp add: same_next_closer)
    also have "tokenize (CHR '','' # stringify_members kvs @ r) =
            map_option ((#) Comma) (tokenize (stringify_members kvs @ r))"
      by (simp add: tok_punct punctuator_def)
    also have "tokenize (stringify_members kvs @ r) =
            map_option ((@) (tokens_of_members kvs)) (tokenize r)"
      using 10 False by simp
    finally show ?thesis
      using a False by (simp add: option.map_comp comp_def)
  qed
qed

subsection \<open>Parsing the tokens of the serialization\<close>

lemma tokens_of_start:
  "expect RBracket (tokens_of v @ x) = None" "expect RBrace (tokens_of v @ x) = None"
  by (cases v; simp add: expect_def)+

lemma tokens_of_elements_start:
  "vs \<noteq> [] \<Longrightarrow> expect RBracket (tokens_of_elements vs @ x) = None"
  using tokens_of_start(1) by (cases vs) simp_all

lemma tokens_of_members_start:
  "kvs \<noteq> [] \<Longrightarrow> expect RBrace (tokens_of_members kvs @ x) = None"
proof (cases kvs)
  case (Cons kv kvs')
  then show ?thesis by (cases kv) (simp add: expect_def)
qed simp

lemma parse_tokens_of:
  "length (tokens_of v) \<le> m \<Longrightarrow> parse_value m (tokens_of v @ rest) = Some (v, rest)"
  "vs \<noteq> [] \<Longrightarrow> length (tokens_of_elements vs) < m \<Longrightarrow> expect Comma rest = None \<Longrightarrow>
     parse_elements m (tokens_of_elements vs @ rest) = Some (vs, rest)"
  "kvs \<noteq> [] \<Longrightarrow> length (tokens_of_members kvs) < m \<Longrightarrow> expect Comma rest = None \<Longrightarrow>
     parse_members m (tokens_of_members kvs @ rest) = Some (kvs, rest)"
proof (induction v and vs and kvs arbitrary: m rest and m rest and m rest
    rule: tokens_of_tokens_of_elements_tokens_of_members.induct)
  case 1
  then show ?case by (cases m) simp_all
next
  case (2 b)
  then show ?case by (cases m) simp_all
next
  case (3 x)
  then show ?case by (cases m) simp_all
next
  case (4 s)
  then show ?case by (cases m) simp_all
next
  case (5 vs)
  from 5(2) obtain n where m: "m = Suc n" and n: "length (tokens_of_elements vs) < n"
    by (cases m) auto
  show ?case
  proof (cases "vs = []")
    case True
    with m show ?thesis by (simp add: expect_def)
  next
    case False
    from 5(1) [OF False n, of "RBracket # rest"]
    have "parse_elements n (tokens_of_elements vs @ RBracket # rest) = Some (vs, RBracket # rest)"
      by (simp add: expect_def)
    with m tokens_of_elements_start [OF False, of "RBracket # rest"] show ?thesis
      by (simp add: expect_Cons)
  qed
next
  case (6 kvs)
  from 6(2) obtain n where m: "m = Suc n" and n: "length (tokens_of_members kvs) < n"
    by (cases m) auto
  show ?case
  proof (cases "kvs = []")
    case True
    with m show ?thesis by (simp add: expect_def)
  next
    case False
    from 6(1) [OF False n, of "RBrace # rest"]
    have "parse_members n (tokens_of_members kvs @ RBrace # rest) = Some (kvs, RBrace # rest)"
      by (simp add: expect_def)
    with m tokens_of_members_start [OF False, of "RBrace # rest"] show ?thesis
      by (simp add: expect_Cons)
  qed
next
  case 7
  then show ?case by simp
next
  case (8 v vs)
  from 8(4) obtain n where m: "m = Suc n" by (cases m) auto
  show ?case
  proof (cases "vs = []")
    case True
    with 8(4) m have "length (tokens_of v) \<le> n" by simp
    from 8(1) [OF this, of rest] True m 8(5) show ?thesis by simp
  next
    case False
    with 8(4) m have v: "length (tokens_of v) \<le> n" and vs: "length (tokens_of_elements vs) < n"
      by simp_all
    from 8(1) [OF v, of "Comma # tokens_of_elements vs @ rest"]
      8(2) [OF False False vs 8(5)] False m
    show ?thesis by (simp add: expect_Cons)
  qed
next
  case 9
  then show ?case by simp
next
  case (10 k v kvs)
  from 10(4) obtain n where m: "m = Suc n" by (cases m) auto
  show ?case
  proof (cases "kvs = []")
    case True
    with 10(4) m have "length (tokens_of v) \<le> n" by simp
    from 10(1) [OF this, of rest] True m 10(5) show ?thesis by (simp add: expect_Cons)
  next
    case False
    with 10(4) m have v: "length (tokens_of v) \<le> n" and kvs: "length (tokens_of_members kvs) < n"
      by simp_all
    from 10(1) [OF v, of "Comma # tokens_of_members kvs @ rest"]
      10(2) [OF False False kvs 10(5)] False m
    show ?thesis by (simp add: expect_Cons)
  qed
qed

lemma JSON_parse_stringify:
  assumes "plain v"
  shows "JSON_parse (stringify v) = Some v"
proof -
  from tokenize_stringify(1) [OF assms same_next_closer(4)]
  have "tokenize (stringify v) = Some (tokens_of v)"
    by (simp add: tokenize_Nil)
  moreover from parse_tokens_of(1) [of v "length (tokens_of v)" "[]"]
  have "parse_value (length (tokens_of v)) (tokens_of v) = Some (v, [])"
    by simp
  ultimately show ?thesis
    by (simp add: JSON_parse_def)
qed

lemma sanitized_stringify:
  assumes "plain v"
  shows "sanitizedJson_of (stringify v) = stringify v"
  using rcc_stringify(1) [OF assms] rtc_stringify(1) [OF assms, of "[]"]
  by (simp add: sanitizedJson_of_def)

subsection \<open>The fenced block of the serialization\<close>

lemma opens_fence_nth:
  assumes "opens_fence s"
  shows "s ! 3 \<noteq> CHR 0x60"
  using assms by (cases s rule: opens_fence.cases) auto

lemma opens_fence_straddle:
  assumes "\<not> opens_fence (c # p)"
  shows \<open>\<not> opens_fence (c # p @ CHR 0x60 # CHR 0x60 # CHR 0x60 # r)\<close>
proof
  assume o: \<open>opens_fence (c # p @ CHR 0x60 # CHR 0x60 # CHR 0x60 # r)\<close>
  from assms o opens_fence_nth [OF o] show False
    by (cases "c # p" rule: opens_fence.cases) auto
qed

lemma dropWhile_rev_last: "s \<noteq> [] \<Longrightarrow> \<not> P (last s) \<Longrightarrow> dropWhile P (rev s) = rev s"
  by (cases s rule: rev_cases) simp_all

lemma after_fence_open_first:
  assumes "after_fence_open before = None"
  shows \<open>after_fence_open (before @ CHR 0x60 # CHR 0x60 # CHR 0x60 # ''json'' @ r) = Some r\<close>
  using assms
proof (induction before)
  case Nil
  then show ?case by simp
next
  case (Cons c p)
  from Cons.prems have "\<not> opens_fence (c # p)" "after_fence_open p = None"
    by (auto split: if_splits)
  with Cons.IH opens_fence_straddle [of c p "''json'' @ r"] show ?case
    by simp
qed

lemma stringify_end:
  assumes "plain v"
  shows "stringify v \<noteq> []" and "\<not> is_space (last (stringify v))"
proof -
  from stringify_start [OF assms] show "stringify v \<noteq> []"
    by (auto simp: value_start_def)
  show "\<not> is_space (last (stringify v))"
  proof (cases v)
    case (JNumber x)
    with assms have "lex_number x = Some (x, [])" by simp
    from number_literal(1,2) [OF this] have "number_char (last x)"
      by simp
    with JNumber show ?thesis
      using number_char_plain by simp
  qed (simp_all add: quote_def is_space_def)
qed

lemma jsonString_of_fenced:
  assumes "after_fence_open before = None" and "plain v"
  shows "jsonString_of (fenced before (stringify v) after) = stringify v"
proof -
  let ?b = "stringify v"
  from stringify_start [OF assms(2)] obtain c cs where b: "?b = c # cs" and c: "\<not> is_space c"
    by (cases ?b) (auto simp: value_start_def)
  note e = stringify_end [OF assms(2)]
  have "after_fence_open (fenced before ?b after) =
          Some (CHR ''\<newline>'' # ?b @ CHR ''\<newline>'' # CHR 0x60 # CHR 0x60 # CHR 0x60 # after)"
    using after_fence_open_first [OF assms(1),
        of "CHR ''\<newline>'' # ?b @ CHR ''\<newline>'' # CHR 0x60 # CHR 0x60 # CHR 0x60 # after"]
    by (simp add: fenced_def)
  moreover have "dropWhile is_space
       (CHR ''\<newline>'' # ?b @ CHR ''\<newline>'' # CHR 0x60 # CHR 0x60 # CHR 0x60 # after) =
       ?b @ CHR ''\<newline>'' # CHR 0x60 # CHR 0x60 # CHR 0x60 # after"
    using b c by (simp add: is_space_def)
  moreover have "before_fence_close (?b @ CHR ''\<newline>'' # CHR 0x60 # CHR 0x60 # CHR 0x60 # after) =
       Some (?b @ [CHR ''\<newline>''])"
    by (simp add: bfc_stringify(1) [OF assms(2)])
  moreover have "rev (dropWhile is_space (rev (?b @ [CHR ''\<newline>'']))) = ?b"
  proof -
    from e have "dropWhile is_space (rev ?b) = rev ?b"
      by (rule dropWhile_rev_last)
    then show ?thesis
      by (simp add: is_space_def)
  qed
  moreover have "trim ?b = ?b"
  proof -
    from b c have "dropWhile is_space ?b = ?b" by simp
    moreover from e have "dropWhile is_space (rev ?b) = rev ?b"
      by (rule dropWhile_rev_last)
    ultimately show ?thesis by (simp add: trim_def)
  qed
  ultimately show ?thesis
    using e(1) by (simp add: jsonString_of_def match_json_fence_def)
qed

lemma those_z_string: "those (map (z_string \<circ> JString) xs) = Some xs"
  by (induction xs) (simp_all add: z_string_def)

lemma distilled_json_valid: "distilled_schema (distilled_json d) = Some d"
  by (cases d)
     (simp add: distilled_schema_def distilled_json_def z_field_def property_def z_array_def
        those_z_string)

text \<open>
  Claim C9, as amended.  Let \<open>v\<close> be a plain value that the schema accepts as \<open>x\<close>, and
  let the response be the serialization of \<open>v\<close> in a fenced block tagged \<open>json\<close>, after
  a text that opens no such block and before any text.  Then the sanitized candidate
  parses to \<open>v\<close> and \<open>safeGenerate\<close> returns \<open>x\<close>.
\<close>

theorem extraction_round_trip:
  assumes "after_fence_open before = None" and "plain v" and "schema v = Some x"
  shows "JSON_parse (sanitizedJson_of (jsonString_of (fenced before (stringify v) after))) = Some v \<and>
         safeGenerate (answering (fenced before (stringify v) after)) site system prompt schema = Inr x"
proof -
  from assms(1,2) have "JSON_parse (sanitizedJson_of
      (jsonString_of (fenced before (stringify v) after))) = Some v"
    by (simp add: jsonString_of_fenced sanitized_stringify JSON_parse_stringify)
  with assms(3) show ?thesis
    by (simp add: safeGenerate_def answering_def)
qed

lemma quoted_block_run:
  "safeGenerate (answering (fenced quoted_block (stringify (distilled_json finding_short)) []))
     [] [] [] distilled_schema = Inr \<lparr>distilled_learnings = [], followUpQuestions = []\<rparr>"
  by code_simp

lemma finding_fence_run:
  \<open>safeGenerate (answering (fenced [] (stringify (distilled_json finding_fence)) []))
     [] [] [] distilled_schema = Inl (Error ''invalid json from model: {"learnings":["use'')\<close>
  by code_simp

lemma finding_comma_run:
  "safeGenerate (answering (fenced [] (stringify (distilled_json finding_comma)) []))
     [] [] [] distilled_schema =
     Inr \<lparr>distilled_learnings = [''sizes [1, 2]''], followUpQuestions = []\<rparr>"
  by code_simp

lemma finding_del_run:
  "safeGenerate (answering (fenced [] (stringify (distilled_json finding_del)) []))
     [] [] [] distilled_schema = Inr \<lparr>distilled_learnings = [''ab''], followUpQuestions = []\<rparr>"
  by code_simp

lemma chat_before_plain: "after_fence_open chat_before = None"
  by code_simp

lemma finding_plain: "plain (distilled_json finding)"
  by code_simp

text \<open>
  Without the conditions the round trip fails: after a text that quotes a block of its
  own the first block is taken; three backquotes in a string end the block early; a comma
  before a closing bracket in a string is dropped; and the code unit 127 in a string is
  dropped.
\<close>

theorem extraction_round_trip_fails:
  "distilled_schema (distilled_json finding_short) = Some finding_short \<and>
   safeGenerate (answering (fenced quoted_block (stringify (distilled_json finding_short)) []))
     [] [] [] distilled_schema \<noteq> Inr finding_short \<and>
   distilled_schema (distilled_json finding_fence) = Some finding_fence \<and>
   safeGenerate (answering (fenced [] (stringify (distilled_json finding_fence)) []))
     [] [] [] distilled_schema \<noteq> Inr finding_fence \<and>
   distilled_schema (distilled_json finding_comma) = Some finding_comma \<and>
   safeGenerate (answering (fenced [] (stringify (distilled_json finding_comma)) []))
     [] [] [] distilled_schema \<noteq> Inr finding_comma \<and>
   distilled_schema (distilled_json finding_del) = Some finding_del \<and>
   safeGenerate (answering (fenced [] (stringify (distilled_json finding_del)) []))
     [] [] [] distilled_schema \<noteq> Inr finding_del"
  by (simp only: distilled_json_valid quoted_block_run finding_fence_run finding_comma_run
      finding_del_run)
     (simp add: finding_short_def finding_fence_def finding_comma_def finding_del_def)

theorem extraction_round_trip_witness:
  "after_fence_open chat_before = None \<and> plain (distilled_json finding) \<and>
   distilled_schema (distilled_json finding) = Some finding \<and>
   JSON_parse (sanitizedJson_of (jsonString_of
     (fenced chat_before (stringify (distilled_json finding)) chat_after))) =
     Some (distilled_json finding) \<and>
   safeGenerate (answering (fenced chat_before (stringify (distilled_json finding)) chat_after))
     [] [] [] distilled_schema = Inr finding"
  using extraction_round_trip [of chat_before "distilled_json finding" distilled_schema finding
      chat_after "[]" "[]" "[]", OF chat_before_plain finding_plain distilled_json_valid]
    chat_before_plain finding_plain distilled_json_valid [of finding]
  by simp

subsection \<open>Strings that are plain\<close>

text \<open>
  A string with no code unit 127, no backquote and no comma is plain, whatever else it
  holds: quotes, backslashes and the code units below 32 are escaped.
\<close>

lemma of_char_hex_digit:
  "n < 16 \<Longrightarrow> (of_char (hex_digit n) :: nat) = (if n < 10 then 48 + n else 87 + n)"
  by (simp add: hex_digit_def)

lemma hex_digit_plain:
  assumes "n < 16"
  shows "\<not> is_control (hex_digit n)" "hex_digit n \<noteq> CHR 0x60" "hex_digit n \<noteq> CHR '',''"
proof -
  note h = of_char_hex_digit [OF assms]
  from h show "\<not> is_control (hex_digit n)"
    using assms by (simp add: is_control_def split: if_splits)
  show "hex_digit n \<noteq> CHR 0x60"
  proof
    assume "hex_digit n = CHR 0x60"
    then have "(of_char (hex_digit n) :: nat) = of_char (CHR 0x60)" by simp
    with h assms show False by (simp split: if_splits)
  qed
  show "hex_digit n \<noteq> CHR '',''"
  proof
    assume "hex_digit n = CHR '',''"
    then have "(of_char (hex_digit n) :: nat) = of_char (CHR '','')" by simp
    with h assms show False by (simp split: if_splits)
  qed
qed

lemma escape_char_shape:
  \<open>(escape_char c = [c] \<and> 32 \<le> (of_char c :: nat)) \<or>
   (\<exists>e. escape_char c = [CHR 0x5C, e] \<and>
      (e = CHR ''"'' \<or> e = CHR 0x5C \<or> e = CHR ''b'' \<or> e = CHR ''f'' \<or> e = CHR ''n'' \<or>
       e = CHR ''r'' \<or> e = CHR ''t'')) \<or>
   escape_char c =
      [CHR 0x5C, CHR ''u'', CHR ''0'', CHR ''0'',
       hex_digit ((of_char c :: nat) div 16), hex_digit ((of_char c :: nat) mod 16)]\<close>
  by (simp add: escape_char_def not_less)

lemma escape_char_cases:
  obtains (raw) "escape_char c = [c]" "32 \<le> (of_char c :: nat)"
  | (short) e where "escape_char c = [CHR 0x5C, e]"
      \<open>e = CHR ''"'' \<or> e = CHR 0x5C \<or> e = CHR ''b'' \<or> e = CHR ''f'' \<or> e = CHR ''n'' \<or>
       e = CHR ''r'' \<or> e = CHR ''t''\<close>
  | (hex) "escape_char c =
      [CHR 0x5C, CHR ''u'', CHR ''0'', CHR ''0'',
       hex_digit ((of_char c :: nat) div 16), hex_digit ((of_char c :: nat) mod 16)]"
  using escape_char_shape [of c] by blast

lemma escape_char_plain:
  assumes "x \<in> set (escape_char c)"
  shows "c \<noteq> CHR 0x7F \<Longrightarrow> \<not> is_control x"
    and "c \<noteq> CHR 0x60 \<Longrightarrow> x \<noteq> CHR 0x60"
    and "c \<noteq> CHR '','' \<Longrightarrow> x \<noteq> CHR '',''"
proof -
  have "(of_char c :: nat) mod 256 = of_char c"
    by (rule of_char_mod_256)
  then have "(of_char c :: nat) < 256"
    by (metis mod_less_divisor zero_less_numeral)
  then have d: "(of_char c :: nat) div 16 < 16" "(of_char c :: nat) mod 16 < 16"
    using less_mult_imp_div_less [of "of_char c" 16 16] by simp_all
  note p = hex_digit_plain [OF d(1)] hex_digit_plain [OF d(2)]
  have del: "c = CHR 0x7F" if "(of_char c :: nat) = 127"
  proof -
    from that have "(of_char c :: nat) = of_char (CHR 0x7F)" by simp
    then show ?thesis by (simp only: of_char_eq_iff)
  qed
  show "\<not> is_control x" if "c \<noteq> CHR 0x7F"
  proof (cases c rule: escape_char_cases)
    case raw
    with assms that del show ?thesis by (auto simp: is_control_def)
  next
    case (short e)
    with assms show ?thesis by (auto simp: is_control_def)
  next
    case hex
    with assms p(1,4) show ?thesis by (auto simp: is_control_def)
  qed
  show "x \<noteq> CHR 0x60" if "c \<noteq> CHR 0x60"
  proof (cases c rule: escape_char_cases)
    case raw
    with assms that show ?thesis by auto
  next
    case (short e)
    with assms show ?thesis by auto
  next
    case hex
    with assms p(2,5) show ?thesis by auto
  qed
  show "x \<noteq> CHR '',''" if "c \<noteq> CHR '',''"
  proof (cases c rule: escape_char_cases)
    case raw
    with assms that show ?thesis by auto
  next
    case (short e)
    with assms show ?thesis by auto
  next
    case hex
    with assms p(3,6) show ?thesis by auto
  qed
qed

lemma plain_string_simple:
  assumes "CHR 0x7F \<notin> set s" "CHR 0x60 \<notin> set s" "CHR '','' \<notin> set s"
  shows "plain_string s"
proof -
  have q: \<open>set (quote s) = insert (CHR ''"'') (\<Union>c \<in> set s. set (escape_char c))\<close>
    by (auto simp: quote_def)
  from assms(1) have "\<forall>x \<in> set (quote s). \<not> is_control x"
    unfolding q using escape_char_plain(1) by (auto simp: is_control_def)
  then have "remove_control_chars (quote s) = quote s"
    by (simp add: remove_control_chars_def)
  moreover from assms(3) have "CHR '','' \<notin> set (quote s)"
    unfolding q using escape_char_plain(3) by auto
  then have "remove_trailing_commas (quote s) = quote s"
    using rtc_no_comma [of "quote s" "[]"] by simp
  moreover from assms(2) have "CHR 0x60 \<notin> set (quote s)"
    unfolding q using escape_char_plain(2) by auto
  then have "before_fence_close (quote s) = None"
    using bfc_no_backquote [of "quote s" "[]"] by simp
  ultimately show ?thesis
    by (simp add: plain_string_def)
qed

section \<open>Properties of the limiter\<close>

lemma active_Cons: "active (x # bs) = (if running x then Suc (active bs) else active bs)"
  by (simp add: active_def)

lemma active_update_same:
  "i < length bs \<Longrightarrow> running y = running (bs ! i) \<Longrightarrow> active (bs[i := y]) = active bs"
proof (induction bs arbitrary: i)
  case Nil
  then show ?case by simp
next
  case (Cons x bs)
  then show ?case by (cases i) (simp_all add: active_Cons)
qed

lemma active_update_stop:
  "i < length bs \<Longrightarrow> \<not> running y \<Longrightarrow> active (bs[i := y]) \<le> active bs"
proof (induction bs arbitrary: i)
  case Nil
  then show ?case by simp
next
  case (Cons x bs)
  then show ?case by (cases i) (simp_all add: active_Cons le_SucI)
qed

lemma active_update_start:
  "i < length bs \<Longrightarrow> \<not> running (bs ! i) \<Longrightarrow> running y \<Longrightarrow>
     active (bs[i := y]) = Suc (active bs)"
proof (induction bs arbitrary: i)
  case Nil
  then show ?case by simp
next
  case (Cons x bs)
  then show ?case by (cases i) (simp_all add: active_Cons)
qed

lemma list_all_update: "list_all P bs \<Longrightarrow> P y \<Longrightarrow> list_all P (bs[i := y])"
  using set_update_subset_insert [of bs i y] by (auto simp: list_all_iff)

lemma list_all_nth: "list_all P bs \<Longrightarrow> i < length bs \<Longrightarrow> P (bs ! i)"
  by (simp add: list_all_length)

lemma active_replicate_Queued: "active (replicate n Queued) = 0"
  by (simp add: active_def)

lemma within_limit_replicate_Queued: "list_all within_limit (replicate n Queued)"
  by (simp add: list_all_iff)

lemma move_running:
  assumes "move breadth depth x y"
  shows "running x" and "within_limit x \<Longrightarrow> within_limit y"
  using assms
  by (induction rule: move.induct)
     (simp_all add: active_replicate_Queued within_limit_replicate_Queued)

lemma step_within_limit:
  assumes "step breadth depth bs bs'"
    and "active bs \<le> ConcurrencyLimit" and "list_all within_limit bs"
  shows "active bs' \<le> ConcurrencyLimit \<and> list_all within_limit bs'"
  using assms
proof (induction rule: step.induct)
  case (start i bs breadth depth)
  then have "active (bs[i := Pausing]) = Suc (active bs)"
    by (intro active_update_start) simp_all
  with start show ?case
    by (simp add: list_all_update)
next
  case (phase i bs breadth depth y)
  from move_running(1) [OF phase(2)] have r: "running (bs ! i)" .
  have "active (bs[i := y]) \<le> active bs"
  proof (cases "running y")
    case True
    with r phase(1) show ?thesis by (simp add: active_update_same)
  next
    case False
    with phase(1) show ?thesis by (rule active_update_stop)
  qed
  moreover from phase have "within_limit y"
    using move_running(2) list_all_nth by blast
  ultimately show ?case
    using phase by (simp add: list_all_update)
next
  case (inner i bs out b d cs cs' breadth depth)
  from inner(1,2,6) list_all_nth [of within_limit bs i]
  have "active cs \<le> ConcurrencyLimit" "list_all within_limit cs"
    by auto
  with inner(4) have "within_limit (Nested out b d cs')"
    by simp
  moreover from inner(1,2) have "active (bs[i := Nested out b d cs']) = active bs"
    by (intro active_update_same) simp_all
  ultimately show ?case
    using inner by (simp add: list_all_update)
qed

lemma phase_run:
  assumes "i < length bs" and "(move breadth depth)\<^sup>*\<^sup>* (bs ! i) y"
  shows "(step breadth depth)\<^sup>*\<^sup>* bs (bs[i := y])"
  using assms(2)
proof (induction rule: rtranclp_induct)
  case base
  show ?case by simp
next
  case (step y z)
  from assms(1) step(2) have "step breadth depth (bs[i := y]) ((bs[i := y])[i := z])"
    by (intro phase) simp_all
  with step(3) show ?case by simp
qed

lemma inner_run:
  assumes "i < length bs" and "bs ! i = Nested out b d cs" and "(step b d)\<^sup>*\<^sup>* cs cs'"
  shows "(step breadth depth)\<^sup>*\<^sup>* bs (bs[i := Nested out b d cs'])"
  using assms(3)
proof (induction rule: rtranclp_induct)
  case base
  from assms(1,2) show ?case
    by (metis list_update_id rtranclp.rtrancl_refl)
next
  case (step y z)
  from assms(1) step(2)
  have "step breadth depth (bs[i := Nested out b d y]) ((bs[i := Nested out b d y])[i := Nested out b d z])"
    by (intro inner [where cs = y]) simp_all
  with step(3) show ?case by simp
qed

lemma branch_descends:
  "(move 4 2)\<^sup>*\<^sup>* Pausing (Nested Pending 2 1 [Queued, Queued])"
proof -
  have "move 4 2 Pausing Searching" by (rule search)
  moreover have "move 4 2 Searching Distilling" by (rule searched)
  moreover have "move 4 2 Distilling (Planning 2 1)"
    using descend [of 2 4] by simp
  moreover have "move 4 2 (Planning 2 1) (Nested Pending 2 1 [Queued, Queued])"
    using planned [of 4 2 2 1
        "[\<lparr>query = ''q1'', researchGoal = ''g1''\<rparr>, \<lparr>query = ''q2'', researchGoal = ''g2''\<rparr>]"]
    by (simp add: slice0_def)
  ultimately show ?thesis by simp
qed

lemma nested_searches:
  "(step 2 1)\<^sup>*\<^sup>* [Queued, Queued] [Searching, Searching]"
proof -
  have "step 2 1 [Queued, Queued] [Pausing, Queued]"
    using start [of 0 "[Queued, Queued]" 2 1] by (simp add: active_def ConcurrencyLimit_def)
  moreover have "step 2 1 [Pausing, Queued] [Searching, Queued]"
    using phase [of 0 "[Pausing, Queued]" 2 1 Searching] by (simp add: search)
  moreover have "step 2 1 [Searching, Queued] [Searching, Pausing]"
    using start [of 1 "[Searching, Queued]" 2 1] by (simp add: active_def ConcurrencyLimit_def)
  moreover have "step 2 1 [Searching, Pausing] [Searching, Searching]"
    using phase [of 1 "[Searching, Pausing]" 2 1 Searching] by (simp add: search)
  ultimately show ?thesis by simp
qed

lemma crowded_reachable: "(step 4 2)\<^sup>*\<^sup>* (replicate 4 Queued) crowded"
proof -
  let ?n = "Nested Pending 2 1"
  have "step 4 2 (replicate 4 Queued) [Pausing, Queued, Queued, Queued]"
    using start [of 0 "replicate 4 Queued" 4 2]
    by (simp add: active_def ConcurrencyLimit_def numeral_eq_Suc)
  moreover have "(step 4 2)\<^sup>*\<^sup>* [Pausing, Queued, Queued, Queued] [?n [Queued, Queued], Queued, Queued, Queued]"
    using phase_run [of 0 "[Pausing, Queued, Queued, Queued]" 4 2] branch_descends by simp
  moreover have "(step 4 2)\<^sup>*\<^sup>* [?n [Queued, Queued], Queued, Queued, Queued]
      [?n [Searching, Searching], Queued, Queued, Queued]"
    using inner_run [of 0 "[?n [Queued, Queued], Queued, Queued, Queued]" Pending 2 1
        "[Queued, Queued]" "[Searching, Searching]" 4 2] nested_searches
    by simp
  moreover have "step 4 2 [?n [Searching, Searching], Queued, Queued, Queued]
      [?n [Searching, Searching], Pausing, Queued, Queued]"
    using start [of 1 "[?n [Searching, Searching], Queued, Queued, Queued]" 4 2]
    by (simp add: active_def ConcurrencyLimit_def)
  moreover have "(step 4 2)\<^sup>*\<^sup>* [?n [Searching, Searching], Pausing, Queued, Queued]
      [?n [Searching, Searching], ?n [Queued, Queued], Queued, Queued]"
    using phase_run [of 1 "[?n [Searching, Searching], Pausing, Queued, Queued]" 4 2]
      branch_descends by simp
  moreover have "(step 4 2)\<^sup>*\<^sup>* [?n [Searching, Searching], ?n [Queued, Queued], Queued, Queued]
      [?n [Searching, Searching], ?n [Searching, Searching], Queued, Queued]"
    using inner_run [of 1 "[?n [Searching, Searching], ?n [Queued, Queued], Queued, Queued]"
        Pending 2 1 "[Queued, Queued]" "[Searching, Searching]" 4 2] nested_searches
    by simp
  ultimately show ?thesis
    by (simp add: crowded_def)
qed

text \<open>
  Claim C5, as amended.  In every state that a run reaches from its queued branches, every
  limiter of the run, that of the outer invocation and that of every nested one, has at
  most \<open>ConcurrencyLimit\<close> branches running; a branch awaits a collaborator only
  while it is running.
\<close>

theorem limit_per_invocation:
  assumes "(step breadth depth)\<^sup>*\<^sup>* (replicate n Queued) bs"
  shows "within_limit (Nested Pending breadth depth bs)"
  using assms
proof (induction rule: rtranclp_induct)
  case base
  show ?case
    by (simp add: active_replicate_Queued within_limit_replicate_Queued)
next
  case (step bs bs')
  with step_within_limit [of breadth depth bs bs'] show ?case
    by simp
qed

theorem limit_per_invocation_witness:
  "(step 4 2)\<^sup>*\<^sup>* (replicate 4 Queued) crowded \<and>
   within_limit (Nested Pending 4 2 crowded)"
  using limit_per_invocation [of 4 2 4 crowded] crowded_reachable by simp

text \<open>
  The ceiling is not one bound for the whole run: with breadth 4 and depth 2 the run
  reaches a state in which four branches await the search at once, two in each of two
  nested invocations.
\<close>

theorem limit_not_global:
  "(step 4 2)\<^sup>*\<^sup>* (replicate 4 Queued) crowded \<and>
   searching (Nested Pending 4 2 crowded) = 4 \<and> ConcurrencyLimit < 4"
  using crowded_reachable by (simp add: crowded_def ConcurrencyLimit_def)


end
